theory Spec2Isabelle
  imports Complex_Main "HOL-Library.Log_Nat"
begin

section \<open>The listing mode of the line editor (edit/listing.go)\<close>

text \<open>
  A shallow embedding of \<^verbatim>\<open>edit/listing.go\<close>: the listing state, the provider interface,
  the window-building loop of \<^verbatim>\<open>List\<close>, the scrollbar interval, the navigation
  operations and the filter operations.

  Conventions of the embedding.
  \<^item> Go's \<^verbatim>\<open>int\<close> is modelled by the unbounded \<open>int\<close>: indices, heights and page sizes
    are far from the 64-bit limits in every state considered.
  \<^item> A Go \<^verbatim>\<open>string\<close> is a sequence of bytes; it is modelled by \<open>string\<close>, whose
    characters are bytes. \<open>byte\<close> reads a character as a number.
  \<^item> A pointer receiver that is mutated becomes a state that is passed in and returned.
  \<^item> The interface value \<^verbatim>\<open>listingProvider\<close> is a method table (a record of functions)
    over a receiver state of type \<open>'p\<close>. \<^verbatim>\<open>Filter\<close> re-evaluates the entry set, so it
    returns the new receiver state next to the index; \<^verbatim>\<open>Len\<close>, \<^verbatim>\<open>Show\<close> and
    \<^verbatim>\<open>ModeTitle\<close> only read it.
  \<^item> The buffer type, \<^verbatim>\<open>TrimWcWidth\<close> and the style constants are declared in other
    files of the package; they are parameters, collected in the record \<open>renderer\<close>.
\<close>

subsection \<open>Strings: the functions of package strings that the listing uses\<close>

definition nl :: char where
  "nl = CHR 0x0A"

text \<open>\<^verbatim>\<open>strings.Count(s, sep)\<close> for a separator of one byte.\<close>

fun Count :: "string \<Rightarrow> char \<Rightarrow> nat" where
  "Count [] c = 0"
| "Count (x # xs) c = (if x = c then 1 else 0) + Count xs c"

text \<open>\<^verbatim>\<open>strings.Split(s, sep)\<close> for a separator of one byte; the empty string gives one
  empty piece.\<close>

fun Split :: "string \<Rightarrow> char \<Rightarrow> string list" where
  "Split [] c = [[]]"
| "Split (x # xs) c =
     (if x = c then [] # Split xs c
      else (case Split xs c of [] \<Rightarrow> [[x]] | l # ls \<Rightarrow> (x # l) # ls))"

text \<open>\<^verbatim>\<open>strings.Join(pieces, sep)\<close> for a separator of one byte.\<close>

fun Join :: "string list \<Rightarrow> char \<Rightarrow> string" where
  "Join [] c = []"
| "Join [l] c = l"
| "Join (l # ls) c = l @ c # Join ls c"

subsection \<open>UTF-8: the functions of package unicode/utf8 and the conversion string(rune)\<close>

text \<open>
  These belong to the Go standard library. They are written here after their documented
  behaviour, with the bit masks of the library written as \<open>div\<close> and \<open>mod\<close>.
\<close>

type_synonym rune = int

definition byte :: "char \<Rightarrow> int" where
  "byte c = of_char c"

definition RuneError :: rune where
  "RuneError = 0xFFFD"

definition RuneSelf :: int where
  "RuneSelf = 0x80"

definition UTFMax :: nat where
  "UTFMax = 4"

text \<open>\<^verbatim>\<open>utf8.RuneStart(b)\<close>: the byte is not a continuation byte.\<close>

definition RuneStart :: "char \<Rightarrow> bool" where
  "RuneStart c \<longleftrightarrow> \<not> (0x80 \<le> byte c \<and> byte c < 0xC0)"

text \<open>The conversion \<^verbatim>\<open>string(r)\<close>: the UTF-8 encoding of the rune, and the encoding of
  U+FFFD for a value that is not a Unicode scalar value.\<close>

definition runeToString :: "rune \<Rightarrow> string" where
  "runeToString r =
     (if 0 \<le> r \<and> r \<le> 0x7F then [char_of r]
      else if 0 \<le> r \<and> r \<le> 0x7FF then
        [char_of (0xC0 + r div 64), char_of (0x80 + r mod 64)]
      else if r < 0 \<or> 0x10FFFF < r \<or> (0xD800 \<le> r \<and> r \<le> 0xDFFF) then
        [char_of (0xEF :: int), char_of (0xBF :: int), char_of (0xBD :: int)]
      else if r \<le> 0xFFFF then
        [char_of (0xE0 + r div 4096), char_of (0x80 + (r div 64) mod 64),
         char_of (0x80 + r mod 64)]
      else
        [char_of (0xF0 + r div 262144), char_of (0x80 + (r div 4096) mod 64),
         char_of (0x80 + (r div 64) mod 64), char_of (0x80 + r mod 64)])"

text \<open>\<^verbatim>\<open>utf8.DecodeRuneInString(s)\<close>: the first rune of \<open>s\<close> and its width in bytes;
  \<open>(RuneError, 0)\<close> for the empty string and \<open>(RuneError, 1)\<close> for an invalid
  encoding.\<close>

fun DecodeRuneInString :: "string \<Rightarrow> rune \<times> nat" where
  "DecodeRuneInString [] = (RuneError, 0)"
| "DecodeRuneInString (c0 # cs) =
     (let s0 = byte c0 in
      if s0 < RuneSelf then (s0, 1)
      else if s0 < 0xC2 \<or> 0xF4 < s0 then (RuneError, 1)
      else
        let sz = (if s0 < 0xE0 then 2 else if s0 < 0xF0 then 3 else (4::nat));
            lo = (if s0 = 0xE0 then 0xA0 else if s0 = 0xF0 then 0x90 else 0x80);
            hi = (if s0 = 0xED then 0x9F else if s0 = 0xF4 then 0x8F else 0xBF)
        in
        if length cs + 1 < sz then (RuneError, 1)
        else
          let s1 = byte (cs ! 0) in
          if s1 < lo \<or> hi < s1 then (RuneError, 1)
          else if sz \<le> 2 then ((s0 mod 32) * 64 + s1 mod 64, 2)
          else
            let s2 = byte (cs ! 1) in
            if s2 < 0x80 \<or> 0xBF < s2 then (RuneError, 1)
            else if sz \<le> 3 then ((s0 mod 16) * 4096 + (s1 mod 64) * 64 + s2 mod 64, 3)
            else
              let s3 = byte (cs ! 2) in
              if s3 < 0x80 \<or> 0xBF < s3 then (RuneError, 1)
              else ((s0 mod 8) * 262144 + (s1 mod 64) * 4096 + (s2 mod 64) * 64
                    + s3 mod 64, 4))"

text \<open>The backward scan of \<^verbatim>\<open>DecodeLastRuneInString\<close>:
  \<^verbatim>\<open>for start--; start >= lim; start-- { if RuneStart(s[start]) { break } }\<close>,
  entered with \<open>start\<close> already decremented.\<close>

function scanBack :: "string \<Rightarrow> int \<Rightarrow> int \<Rightarrow> int" where
  "scanBack s limit start =
     (if limit \<le> start then
        (if RuneStart (s ! nat start) then start else scanBack s limit (start - 1))
      else start)"
  by pat_completeness auto
termination
  by (relation "measure (\<lambda>(s, limit, start). nat (start - limit + 1))") auto

text \<open>\<^verbatim>\<open>utf8.DecodeLastRuneInString(s)\<close>: the last rune of \<open>s\<close> and its width in bytes;
  \<open>(RuneError, 0)\<close> for the empty string and \<open>(RuneError, 1)\<close> for an invalid
  encoding.\<close>

definition DecodeLastRuneInString :: "string \<Rightarrow> rune \<times> nat" where
  "DecodeLastRuneInString s =
     (let e = int (length s) in
      if e = 0 then (RuneError, 0)
      else
        let r = byte (s ! nat (e - 1)) in
        if r < RuneSelf then (r, 1)
        else
          let limit = (if e - int UTFMax < 0 then 0 else e - int UTFMax);
              start = scanBack s limit (e - 2);
              start = (if start < 0 then 0 else start);
              (r, size) = DecodeRuneInString (drop (nat start) s)
          in if start + int size \<noteq> e then (RuneError, 1) else (r, size))"

subsection \<open>Data model\<close>

type_synonym ModeType = int

record styled =
  "text" :: string
  style :: string

record Key =
  Rune :: rune
  Mod :: int

text \<open>The interface \<^verbatim>\<open>listingProvider\<close>, together with the optional interface
  \<^verbatim>\<open>Placeholderer\<close>: \<open>Placeholder\<close> is \<open>None\<close> for a provider that does not
  implement it. \<^verbatim>\<open>Accept\<close> acts on the editor only and is left out.\<close>

record 'p listingProvider =
  Len :: "'p \<Rightarrow> int"
  Show :: "'p \<Rightarrow> int \<Rightarrow> int \<Rightarrow> styled"
  Filter :: "'p \<Rightarrow> string \<Rightarrow> int \<times> 'p"
  ModeTitle :: "'p \<Rightarrow> int \<Rightarrow> string"
  Placeholder :: "('p \<Rightarrow> string) option"

record 'p listing =
  "typ" :: ModeType
  provider :: 'p
  selected :: int
  filter_text :: string
  pagesize :: int

text \<open>What the listing uses of the rest of the package: the buffer and its methods,
  \<^verbatim>\<open>TrimWcWidth\<close> and the styles.\<close>

record 'b renderer =
  newBuffer :: "int \<Rightarrow> 'b"
  writes :: "'b \<Rightarrow> string \<Rightarrow> string \<Rightarrow> 'b"
  "write" :: "'b \<Rightarrow> rune \<Rightarrow> string \<Rightarrow> 'b"
  newline :: "'b \<Rightarrow> 'b"
  extendHorizontal :: "'b \<Rightarrow> 'b \<Rightarrow> int \<Rightarrow> 'b"
  TrimWcWidth :: "string \<Rightarrow> int \<Rightarrow> string"
  styleForSelected :: string
  styleForScrollBar :: string

subsection \<open>The scrollbar\<close>

text \<open>
  The closure \<^verbatim>\<open>f\<close> of \<^verbatim>\<open>findScrollInterval\<close> computes in \<^verbatim>\<open>float64\<close>. A finite
  \<^verbatim>\<open>float64\<close> is modelled by the rational number it denotes, and \<open>float64\<close> rounds a
  rational to the nearest number with a significand of 53 bits, ties to the even
  significand, as IEEE 754 binary64 arithmetic rounds the exact result of every conversion,
  division, multiplication and addition. Each operation is rounded on its own (no fused
  multiply-add), as the compiler does on amd64. The range of the exponent is not modelled:
  for arguments that are 64-bit integers with \<open>n \<noteq> 0\<close>, no intermediate value is near
  overflow or subnormal. (For \<open>n = 0\<close> the Go expression divides by zero; \<^verbatim>\<open>List\<close> never
  calls it so.)

  \<open>exponent x\<close> is the integer \<open>e\<close> with \<open>2 ^ e \<le> |x| < 2 ^ (e + 1)\<close> (lemma
  \<open>exponent_bounds\<close>); \<open>roundEven\<close> rounds to the nearest integer, ties to even.
  \<^verbatim>\<open>int(x)\<close> on a float truncates towards zero.
\<close>

definition exponent :: "rat \<Rightarrow> int" where
  "exponent x =
     (let (a, b) = quotient_of \<bar>x\<bar>; e = bitlen a - bitlen b
      in if 2 powi e \<le> \<bar>x\<bar> then e else e - 1)"

definition roundEven :: "rat \<Rightarrow> int" where
  "roundEven x =
     (let f = \<lfloor>x\<rfloor>; d = x - of_int f
      in if d < 1 / 2 then f else if 1 / 2 < d then f + 1 else if even f then f else f + 1)"

definition float64 :: "rat \<Rightarrow> rat" where
  "float64 x =
     (if x = 0 then 0
      else let u = 2 powi (exponent x - 52) in of_int (roundEven (x / u)) * u)"

definition toInt :: "rat \<Rightarrow> int" where
  "toInt x = (if 0 \<le> x then \<lfloor>x\<rfloor> else \<lceil>x\<rceil>)"

definition scroll_f :: "int \<Rightarrow> int \<Rightarrow> int \<Rightarrow> int" where
  "scroll_f n height i =
     toInt (float64 (float64 (float64 (float64 (of_int i) / float64 (of_int n))
                              * float64 (of_int height)) + 1 / 2))"

definition findScrollInterval :: "int \<Rightarrow> int \<Rightarrow> int \<Rightarrow> int \<Rightarrow> int \<times> int" where
  "findScrollInterval n low high height =
     (let scrollLow = scroll_f n height low; scrollHigh = scroll_f n height high in
      if scrollLow = scrollHigh then
        (if scrollHigh = high then (scrollLow - 1, scrollHigh)
         else (scrollLow, scrollHigh + 1))
      else (scrollLow, scrollHigh))"

definition renderScrollbar :: "'b renderer \<Rightarrow> int \<Rightarrow> int \<Rightarrow> int \<Rightarrow> int \<Rightarrow> 'b" where
  "renderScrollbar R n low high height =
     (let (slow, shigh) = findScrollInterval n low high height in
      fold (\<lambda>i b. write R (if 0 < i then newline R b else b)
                     (if slow \<le> i \<and> i < shigh then 0x2589 else 0x2502)
                     (styleForScrollBar R))
        [0 .. height - 1] (newBuffer R 1))"

subsection \<open>The window of entries\<close>

text \<open>The closure \<^verbatim>\<open>getEntry\<close>: the rendering of entry \<open>i\<close> and its number of lines.\<close>

definition getEntry :: "'p listingProvider \<Rightarrow> 'p \<Rightarrow> int \<Rightarrow> int \<Rightarrow> styled \<times> int" where
  "getEntry P p width i = (let s = Show P p i width in (s, int (Count (text s) nl) + 1))"

text \<open>
  The state of the loop is \<open>(low, high, height, entries, extendLow)\<close>; \<open>entries\<close> is the
  linked list, \<^verbatim>\<open>PushFront\<close> is \<open>#\<close> and \<^verbatim>\<open>PushBack\<close> appends. \<open>extendStep\<close> is one run of
  the loop body. The slices \<^verbatim>\<open>lines[k:]\<close> and \<^verbatim>\<open>lines[:len(lines)-k]\<close> are \<open>drop\<close> and
  \<open>take\<close>; \<open>k\<close> lies strictly between 0 and \<^verbatim>\<open>len(lines)\<close> whenever the body runs
  (lemma \<open>extendStep_cut_in_range\<close>), so neither slice panics.
\<close>

type_synonym lstate = "int \<times> int \<times> int \<times> styled list \<times> bool"

fun extendStep :: "'p listingProvider \<Rightarrow> 'p \<Rightarrow> int \<Rightarrow> int \<Rightarrow> int \<Rightarrow> lstate \<Rightarrow> lstate" where
  "extendStep P p width maxHeight n (low, high, height, entries, extendLow) =
     (if (extendLow \<and> 0 < low) \<or> high = n then
        (let low' = low - 1;
             (s, h) = getEntry P p width low';
             height' = height + h
         in if maxHeight < height' then
              (let lines = Split (text s) nl;
                   s' = s\<lparr>text := Join (drop (nat (height' - maxHeight)) lines) nl\<rparr>
               in (low', high, maxHeight, s' # entries, \<not> extendLow))
            else (low', high, height', s # entries, \<not> extendLow))
      else
        (let (s, h) = getEntry P p width high;
             height' = height + h
         in if maxHeight < height' then
              (let lines = Split (text s) nl;
                   s' = s\<lparr>text := Join (take (nat (int (length lines) - (height' - maxHeight)))
                                          lines) nl\<rparr>
               in (low, high + 1, maxHeight, entries @ [s'], \<not> extendLow))
            else (low, high + 1, height', entries @ [s], \<not> extendLow)))"

lemma extendStep_height:
  "height < maxHeight \<Longrightarrow>
   extendStep P p width maxHeight n (low, high, height, entries, extendLow)
     = (low', high', height', entries', extendLow') \<Longrightarrow>
   height < height' \<and> height' \<le> maxHeight"
  by (auto simp: getEntry_def Let_def split: if_splits)

function collect :: "'p listingProvider \<Rightarrow> 'p \<Rightarrow> int \<Rightarrow> int \<Rightarrow> int \<Rightarrow> lstate \<Rightarrow> lstate" where
  "collect P p width maxHeight n (low, high, height, entries, extendLow) =
     (if height < maxHeight \<and> \<not> (low = 0 \<and> high = n) then
        collect P p width maxHeight n
          (extendStep P p width maxHeight n (low, high, height, entries, extendLow))
      else (low, high, height, entries, extendLow))"
  by pat_completeness auto
termination
proof (relation "measure (\<lambda>(P, p, width, maxHeight, n, (low, high, height, entries, extendLow)).
                            nat (maxHeight - height))")
  show "wf (measure (\<lambda>(P :: 'p listingProvider, p :: 'p, width :: int, maxHeight, n :: int,
                        (low :: int, high :: int, height, entries :: styled list,
                         extendLow :: bool)).
                        nat (maxHeight - height)))"
    by simp
next
  fix P :: "'p listingProvider" and p :: 'p and width maxHeight n low high height :: int
    and entries :: "styled list" and extendLow :: bool
  assume g: "height < maxHeight \<and> \<not> (low = 0 \<and> high = n)"
  obtain low' high' height' entries' extendLow' where
    e: "extendStep P p width maxHeight n (low, high, height, entries, extendLow)
          = (low', high', height', entries', extendLow')"
    by (metis prod_cases5)
  from g have "height < maxHeight" by simp
  from extendStep_height [OF this e] have "height < height' \<and> height' \<le> maxHeight" .
  then show "((P, p, width, maxHeight, n,
               extendStep P p width maxHeight n (low, high, height, entries, extendLow)),
              (P, p, width, maxHeight, n, low, high, height, entries, extendLow))
             \<in> measure (\<lambda>(P, p, width, maxHeight, n, (low, high, height, entries, extendLow)).
                          nat (maxHeight - height))"
    using e by simp
qed

text \<open>The rendering loop at the end of \<^verbatim>\<open>List\<close>, over the indices \<open>low \<le> i < high\<close>
  paired with the nodes of the list. The list has exactly \<open>high - low\<close> nodes (lemma
  \<open>window_windowInv\<close>), so the loop never runs past its last node.\<close>

fun writeEntries :: "'b renderer \<Rightarrow> int \<Rightarrow> int \<Rightarrow> (int \<times> styled) list \<Rightarrow> 'b \<Rightarrow> 'b" where
  "writeEntries R sel low [] b = b"
| "writeEntries R sel low ((i, s) # rest) b =
     writeEntries R sel low rest
       (writes R (if low < i then newline R b else b) (text s)
          (if i = sel then style s @ styleForSelected R else style s))"

text \<open>The seed of the window and the loop, lines 68 to 109 of the source.\<close>

definition window :: "'p listingProvider \<Rightarrow> int \<Rightarrow> int \<Rightarrow> 'p listing \<Rightarrow> lstate" where
  "window P width maxHeight l =
     (let n = Len P (provider l);
          low = (if selected l = - 1 then 0 else selected l)
      in collect P (provider l) width maxHeight n (low, low, 0, [], False))"

definition List ::
  "'p listingProvider \<Rightarrow> 'b renderer \<Rightarrow> int \<Rightarrow> int \<Rightarrow> 'p listing \<Rightarrow> 'b \<times> 'p listing" where
  "List P R width maxHeight l =
     (let n = Len P (provider l);
          b = newBuffer R width
      in if n = 0 then
           (let ph = (case Placeholder P of Some pher \<Rightarrow> pher (provider l)
                      | None \<Rightarrow> ''(no result)'')
            in (writes R b (TrimWcWidth R ph width) [], l))
         else
           (let (low, high, height, entries, extendLow) = window P width maxHeight l;
                l' = l\<lparr>pagesize := high - low\<rparr>;
                (scrollbar, width') =
                   (if 0 < low \<or> high < n - 1
                    then (Some (renderScrollbar R n low high height), width - 1)
                    else (None, width));
                b' = writeEntries R (selected l) low (zip [low .. high - 1] entries) b
            in (case scrollbar of
                  Some sb \<Rightarrow> (extendHorizontal R b' sb width', l')
                | None \<Rightarrow> (b', l'))))"

subsection \<open>Filtering\<close>

definition changeFilter :: "'p listingProvider \<Rightarrow> string \<Rightarrow> 'p listing \<Rightarrow> 'p listing" where
  "changeFilter P newfilter l =
     (let (i, p') = Filter P (provider l) newfilter
      in l\<lparr>filter_text := newfilter, selected := i, provider := p'\<rparr>)"

definition newListing :: "ModeType \<Rightarrow> 'p listingProvider \<Rightarrow> 'p \<Rightarrow> 'p listing" where
  "newListing t P p =
     changeFilter P [] \<lparr>typ = t, provider = p, selected = 0, filter_text = [], pagesize = 0\<rparr>"

definition backspace :: "'p listingProvider \<Rightarrow> 'p listing \<Rightarrow> 'p listing \<times> bool" where
  "backspace P l =
     (let (r, size) = DecodeLastRuneInString (filter_text l) in
      if 0 < size then
        (changeFilter P (take (length (filter_text l) - size) (filter_text l)) l, True)
      else (l, False))"

text \<open>\<^verbatim>\<open>likeChar\<close> is declared in another file of the package; it is a parameter.\<close>

definition handleFilterKey ::
  "'p listingProvider \<Rightarrow> (Key \<Rightarrow> bool) \<Rightarrow> Key \<Rightarrow> 'p listing \<Rightarrow> 'p listing \<times> bool" where
  "handleFilterKey P likeChar k l =
     (if likeChar k then (changeFilter P (filter_text l @ runeToString (Rune k)) l, True)
      else (l, False))"

subsection \<open>Navigation\<close>

definition up :: "'p listingProvider \<Rightarrow> bool \<Rightarrow> 'p listing \<Rightarrow> 'p listing" where
  "up P cycle l =
     (let n = Len P (provider l) in
      if n = 0 then l
      else
        let l1 = l\<lparr>selected := selected l - 1\<rparr> in
        if selected l1 = - 1 then
          (if cycle then l1\<lparr>selected := selected l1 + n\<rparr>
           else l1\<lparr>selected := selected l1 + 1\<rparr>)
        else l1)"

definition pageUp :: "'p listingProvider \<Rightarrow> 'p listing \<Rightarrow> 'p listing" where
  "pageUp P l =
     (let n = Len P (provider l) in
      if n = 0 then l
      else
        let l1 = l\<lparr>selected := selected l - pagesize l\<rparr> in
        if selected l1 < 0 then l1\<lparr>selected := 0\<rparr> else l1)"

definition down :: "'p listingProvider \<Rightarrow> bool \<Rightarrow> 'p listing \<Rightarrow> 'p listing" where
  "down P cycle l =
     (let n = Len P (provider l) in
      if n = 0 then l
      else
        let l1 = l\<lparr>selected := selected l + 1\<rparr> in
        if selected l1 = n then
          (if cycle then l1\<lparr>selected := selected l1 - n\<rparr>
           else l1\<lparr>selected := selected l1 - 1\<rparr>)
        else l1)"

definition pageDown :: "'p listingProvider \<Rightarrow> 'p listing \<Rightarrow> 'p listing" where
  "pageDown P l =
     (let n = Len P (provider l) in
      if n = 0 then l
      else
        let l1 = l\<lparr>selected := selected l + pagesize l\<rparr> in
        if n \<le> selected l1 then l1\<lparr>selected := n - 1\<rparr> else l1)"

text \<open>The four navigation builtins registered by \<^verbatim>\<open>addListingBuiltins\<close>, and a run of
  them in order.\<close>

datatype navigation = Up bool | PageUp | Down bool | PageDown

fun navigate :: "'p listingProvider \<Rightarrow> navigation \<Rightarrow> 'p listing \<Rightarrow> 'p listing" where
  "navigate P (Up cycle) l = up P cycle l"
| "navigate P PageUp l = pageUp P l"
| "navigate P (Down cycle) l = down P cycle l"
| "navigate P PageDown l = pageDown P l"

definition navigateAll :: "'p listingProvider \<Rightarrow> navigation list \<Rightarrow> 'p listing \<Rightarrow> 'p listing" where
  "navigateAll P ops l = fold (navigate P) ops l"


subsection \<open>Predicates and measures used to state the properties\<close>

text \<open>A listing whose selection is one of the entries, or that has no entries and the
  selection \<open>- 1\<close>, with a page size that is not negative. (A listing with entries and
  the selection \<open>- 1\<close> is not among them.)\<close>

definition validListing :: "'p listingProvider \<Rightarrow> 'p listing \<Rightarrow> bool" where
  "validListing P l \<longleftrightarrow>
     (let n = Len P (provider l) in
      (if n = 0 then selected l = - 1 else 0 \<le> selected l \<and> selected l < n)
      \<and> 0 \<le> pagesize l)"


text \<open>The number of lines of a rendering, as \<^verbatim>\<open>getEntry\<close> counts it; the number of lines
  of entry \<open>i\<close>; and the number of lines of all \<open>n\<close> entries together.\<close>

definition lineCount :: "styled \<Rightarrow> int" where
  "lineCount s = int (Count (text s) nl) + 1"

definition entryHeight :: "'p listingProvider \<Rightarrow> 'p \<Rightarrow> int \<Rightarrow> int \<Rightarrow> int" where
  "entryHeight P p width i = lineCount (Show P p i width)"

definition totalHeight :: "'p listingProvider \<Rightarrow> 'p \<Rightarrow> int \<Rightarrow> int \<Rightarrow> int" where
  "totalHeight P p width n = sum_list (map (entryHeight P p width) [0 .. n - 1])"

text \<open>The condition of the loop of \<^verbatim>\<open>List\<close>, and what the loop keeps true.\<close>

definition running :: "int \<Rightarrow> int \<Rightarrow> lstate \<Rightarrow> bool" where
  "running maxHeight n st =
     (case st of (low, high, height, entries, extendLow) \<Rightarrow>
        height < maxHeight \<and> \<not> (low = 0 \<and> high = n))"

definition windowInv :: "'p listingProvider \<Rightarrow> 'p \<Rightarrow> int \<Rightarrow> int \<Rightarrow> int \<Rightarrow> lstate \<Rightarrow> bool" where
  "windowInv P p width maxHeight n st =
     (case st of (low, high, height, entries, extendLow) \<Rightarrow>
        0 \<le> low \<and> low \<le> high \<and> high \<le> n
        \<and> length entries = nat (high - low)
        \<and> height = sum_list (map lineCount entries)
        \<and> 0 \<le> height \<and> height \<le> maxHeight
        \<and> height \<le> sum (entryHeight P p width) {low ..< high})"


text \<open>The index the window starts from, and a window that contains an index.\<close>

definition seedOf :: "'p listing \<Rightarrow> int" where
  "seedOf l = (if selected l = - 1 then 0 else selected l)"

definition holds :: "int \<Rightarrow> lstate \<Rightarrow> bool" where
  "holds i st = (case st of (low, high, height, entries, extendLow) \<Rightarrow> low \<le> i \<and> i < high)"


subsection \<open>Example inputs\<close>

text \<open>A provider of \<open>n\<close> entries that renders every entry as the same text \<open>t\<close>, selects
  entry \<open>sel\<close> on every filter and has no placeholder of its own; its receiver state is
  the filter last applied.\<close>

definition uniformProvider :: "int \<Rightarrow> string \<Rightarrow> int \<Rightarrow> string listingProvider" where
  "uniformProvider n t sel =
     \<lparr>Len = (\<lambda>p. n), Show = (\<lambda>p i w. \<lparr>text = t, style = []\<rparr>),
      Filter = (\<lambda>p s. (sel, s)), ModeTitle = (\<lambda>p i. []), Placeholder = None\<rparr>"

definition exampleListing :: "int \<Rightarrow> int \<Rightarrow> string listing" where
  "exampleListing sel ps =
     \<lparr>typ = 0, provider = [], selected = sel, filter_text = [], pagesize = ps\<rparr>"

definition plainRenderer :: "string renderer" where
  "plainRenderer =
     \<lparr>newBuffer = (\<lambda>w. []), writes = (\<lambda>b t st. b @ t), write = (\<lambda>b r st. b @ runeToString r),
      newline = (\<lambda>b. b @ [nl]), extendHorizontal = (\<lambda>b sb w. b @ sb),
      TrimWcWidth = (\<lambda>s w. take (nat w) s), styleForSelected = ''7'', styleForScrollBar = ''35''\<rparr>"


section \<open>The scrollbar interval\<close>

text \<open>The exponent brackets its argument, and an integer below \<open>2 ^ 53\<close> in absolute value
  is a \<^verbatim>\<open>float64\<close>.\<close>

lemma exponent_bounds:
  assumes "0 < x"
  shows "2 powi exponent x \<le> x \<and> x < 2 powi (exponent x + 1)"
proof -
  obtain a b where q: "quotient_of x = (a, b)" by (cases "quotient_of x")
  have b: "0 < b" using quotient_of_denom_pos [OF q] .
  have x: "x = of_int a / of_int b" using quotient_of_div [OF q] .
  have a: "0 < a" using assms b x by (simp add: zero_less_divide_iff)
  define e where "e = bitlen a - bitlen b"
  from bitlen_bounds [OF a] have a1: "(2::rat) ^ nat (bitlen a - 1) \<le> of_int a" and a2: "of_int a < (2::rat) ^ nat (bitlen a)"
    by (metis of_int_le_iff of_int_numeral of_int_power, metis of_int_less_iff of_int_numeral of_int_power)
  from bitlen_bounds [OF b] have b1: "(2::rat) ^ nat (bitlen b - 1) \<le> of_int b" and b2: "of_int b < (2::rat) ^ nat (bitlen b)"
    by (metis of_int_le_iff of_int_numeral of_int_power, metis of_int_less_iff of_int_numeral of_int_power)
  have la: "1 \<le> bitlen a" "1 \<le> bitlen b" using a b bitlen_eq_zero_iff [of a] bitlen_eq_zero_iff [of b] bitlen_nonneg [of a] bitlen_nonneg [of b] by linarith+
  have pa: "(2::rat) ^ nat (bitlen a) = 2 powi bitlen a" "(2::rat) ^ nat (bitlen a - 1) = 2 powi (bitlen a - 1)"
    "(2::rat) ^ nat (bitlen b) = 2 powi bitlen b" "(2::rat) ^ nat (bitlen b - 1) = 2 powi (bitlen b - 1)"
    using la by (simp_all add: power_int_def)
  have up: "x < 2 powi (e + 1)"
  proof -
    have "x < 2 powi bitlen a / 2 powi (bitlen b - 1)"
      unfolding x using a2 b1 b a pa
      by (intro frac_less) (simp_all)
    also have "\<dots> = 2 powi (bitlen a - (bitlen b - 1))"
      by (subst power_int_diff) simp_all
    also have "bitlen a - (bitlen b - 1) = e + 1" by (simp add: e_def)
    finally show ?thesis .
  qed
  have lo: "2 powi (e - 1) < x"
  proof -
    have "2 powi (bitlen a - 1) / 2 powi bitlen b < x"
      unfolding x using a1 b2 b a pa
      by (intro frac_less2) (simp_all)
    moreover have "(2::rat) powi (bitlen a - 1 - bitlen b) = 2 powi (bitlen a - 1) / 2 powi bitlen b"
      by (subst power_int_diff) simp_all
    moreover have "bitlen a - 1 - bitlen b = e - 1" by (simp add: e_def)
    ultimately show ?thesis by simp
  qed
  have ex: "exponent x = (if 2 powi e \<le> x then e else e - 1)"
    using assms by (simp add: exponent_def q e_def Let_def)
  show ?thesis
  proof (cases "2 powi e \<le> x")
    case True
    with up ex show ?thesis by simp
  next
    case False
    with lo ex show ?thesis by simp
  qed
qed


lemma exponent_abs: "exponent \<bar>x\<bar> = exponent x"
  by (simp add: exponent_def)

lemma roundEven_of_int: "roundEven (of_int m) = m"
  by (simp add: roundEven_def)

lemma float64_of_int:
  assumes "\<bar>k\<bar> < 2 ^ 53"
  shows "float64 (of_int k) = of_int k"
proof (cases "k = 0")
  case True
  then show ?thesis by (simp add: float64_def)
next
  case False
  define x :: rat where "x = of_int k"
  define e where "e = exponent x"
  have ax: "0 < \<bar>x\<bar>" "\<bar>x\<bar> < 2 powi 53" using False assms
    by (simp_all add: x_def power_int_def flip: of_int_abs)
  from exponent_bounds [OF ax(1)] have "2 powi e \<le> \<bar>x\<bar>" by (simp add: e_def exponent_abs)
  with ax(2) have "(2::rat) powi e < 2 powi 53" by simp
  then have "e < 53" by (intro power_int_le_imp_less_exp [of "2::rat"]) simp_all
  then have e: "e \<le> 52" by simp
  define m where "m = k * 2 ^ nat (52 - e)"
  have u: "(2::rat) powi (e - 52) = 1 / 2 ^ nat (52 - e)"
    using e by (simp add: power_int_def field_simps)
  have d: "x / 2 powi (e - 52) = of_int m" by (simp add: u m_def x_def)
  have nz: "x \<noteq> 0" using False by (simp add: x_def)
  have "float64 x = of_int (roundEven (x / 2 powi (e - 52))) * 2 powi (e - 52)"
    using nz by (simp add: float64_def Let_def e_def)
  also have "\<dots> = of_int m * 2 powi (e - 52)" by (simp only: d roundEven_of_int)
  also have "\<dots> = x" by (simp add: u m_def x_def)
  finally show ?thesis by (simp add: x_def)
qed

text \<open>
  Rounding shows in the result: with 22 entries, the window \<open>[4, 15)\<close> and height 11, the
  exact value of \<open>15 / 22 * 11 + 0.5\<close> is 8, the rounded quotient times 11 is just below
  7.5, and the mapped high end is 7.
\<close>

lemma findScrollInterval_rounds_as_float64:
  "float64 (float64 (15 / 22) * 11) = 8444249301319679 / 1125899906842624
   \<and> findScrollInterval 22 4 15 11 = (2, 7)"
  by code_simp

text \<open>
  Claim C1 (the scrollbar invariant): for \<open>n > 0\<close>, \<open>0 \<le> low \<le> high \<le> n\<close> and \<open>h > 0\<close> the
  thumb \<open>[slow, shigh)\<close> of \<^verbatim>\<open>findScrollInterval\<close> satisfies \<open>0 \<le> slow < shigh \<le> h\<close>.

  The code does not keep it. With 8 entries of two lines each, entry 7 selected and a
  height budget of 2, the window is \<open>[7, 8)\<close> with height 2, and the scrollbar is computed
  from \<open>(8, 7, 8, 2)\<close>: both ends map to 2, the test \<^verbatim>\<open>scrollHigh == high\<close> compares the
  mapped end with the entry index 8 instead of the height 2, and the thumb becomes
  \<open>[2, 3)\<close>, past the track of height 2. No operation of this computation rounds
  (7/8 = 0.875, 1.75, 2.25, 2.5).
\<close>

theorem findScrollInterval_thumb_past_track:
  "window (uniformProvider 8 ''a\<newline>b'' 7) 80 2 (exampleListing 7 0)
     = (7, 8, 2, [\<lparr>text = ''a\<newline>b'', style = []\<rparr>], True)
   \<and> findScrollInterval 8 7 8 2 = (2, 3)
   \<and> \<not> snd (findScrollInterval 8 7 8 2) \<le> 2"
  by code_simp

text \<open>
  Claim C2 (the degeneracy rule): when the two mapped ends coincide the thumb is widened
  downward by one, except when the mapped high end equals the rendered height \<open>h\<close>, where
  it is widened upward.

  The code widens upward when the mapped high end equals the entry index \<^verbatim>\<open>high\<close>, not
  the height. At \<open>(n, low, high, h) = (4, 3, 4, 1)\<close> both ends map to 1, which is the
  height, and the code still widens downward: it returns \<open>[1, 2)\<close> where the rule gives
  \<open>[0, 1)\<close>. No operation of this computation rounds (0.75, 1.25, 1.5).
\<close>

theorem findScrollInterval_widens_down_at_full_height:
  "scroll_f 4 1 3 = 1 \<and> scroll_f 4 1 4 = 1 \<and> findScrollInterval 4 3 4 1 = (1, 2)"
  by code_simp

section \<open>Lines of a text\<close>

lemma Split_not_Nil: "Split s c \<noteq> []"
  by (induction s) (auto split: list.splits)

lemma length_Split: "length (Split s c) = Count s c + 1"
  by (induction s) (auto split: list.splits simp: Split_not_Nil)

lemma Split_sep_free: "l \<in> set (Split s c) \<Longrightarrow> c \<notin> set l"
  by (induction s arbitrary: l) (auto split: list.splits if_splits)

lemma Join_Split: "Join (Split s c) c = s"
proof (induction s)
  case Nil
  then show ?case by simp
next
  case (Cons x xs)
  show ?case
  proof (cases "x = c")
    case True
    obtain l ls where "Split xs c = l # ls" using Split_not_Nil by (cases "Split xs c") auto
    with True Cons show ?thesis by simp
  next
    case False
    obtain l ls where e: "Split xs c = l # ls" using Split_not_Nil by (cases "Split xs c") auto
    with False Cons show ?thesis by (cases ls) auto
  qed
qed

lemma Count_append: "Count (xs @ ys) c = Count xs c + Count ys c"
  by (induction xs) auto

lemma Count_sep_free: "c \<notin> set l \<Longrightarrow> Count l c = 0"
  by (induction l) auto

lemma Count_Join: "ls \<noteq> [] \<Longrightarrow> \<forall>l \<in> set ls. c \<notin> set l \<Longrightarrow> Count (Join ls c) c + 1 = length ls"
proof (induction ls c rule: Join.induct)
  case (1 c)
  then show ?case by simp
next
  case (2 l c)
  then show ?case by (simp add: Count_sep_free)
next
  case (3 l v va c)
  then show ?case by (simp add: Count_append Count_sep_free)
qed

lemma Count_Join_take:
  assumes "0 < k" "k \<le> length (Split t c)"
  shows "Count (Join (take k (Split t c)) c) c + 1 = k"
proof -
  have "take k (Split t c) \<noteq> []" using assms Split_not_Nil by (cases "Split t c") auto
  moreover have "\<forall>l \<in> set (take k (Split t c)). c \<notin> set l"
    using Split_sep_free by (metis in_set_takeD)
  ultimately have "Count (Join (take k (Split t c)) c) c + 1 = length (take k (Split t c))"
    by (rule Count_Join)
  with assms show ?thesis by simp
qed

lemma Count_Join_drop:
  assumes "k < length (Split t c)"
  shows "Count (Join (drop k (Split t c)) c) c + 1 = length (Split t c) - k"
proof -
  have "drop k (Split t c) \<noteq> []" using assms by simp
  moreover have "\<forall>l \<in> set (drop k (Split t c)). c \<notin> set l"
    using Split_sep_free by (metis in_set_dropD)
  ultimately have "Count (Join (drop k (Split t c)) c) c + 1 = length (drop k (Split t c))"
    by (rule Count_Join)
  then show ?thesis by simp
qed

lemma Split_sep_free_prefix: "c \<notin> set l \<Longrightarrow> Split (l @ c # rest) c = l # Split rest c"
  by (induction l) auto

lemma Split_no_sep: "c \<notin> set l \<Longrightarrow> Split l c = [l]"
  by (induction l) auto

lemma Split_Join: "ls \<noteq> [] \<Longrightarrow> \<forall>l \<in> set ls. c \<notin> set l \<Longrightarrow> Split (Join ls c) c = ls"
proof (induction ls c rule: Join.induct)
  case (1 c)
  then show ?case by simp
next
  case (2 l c)
  then show ?case by (simp add: Split_no_sep)
next
  case (3 l v va c)
  then show ?case by (simp add: Split_sep_free_prefix)
qed

lemma Split_Join_take:
  assumes "0 < k"
  shows "Split (Join (take k (Split t c)) c) c = take k (Split t c)"
proof (rule Split_Join)
  show "take k (Split t c) \<noteq> []" using assms Split_not_Nil by (cases "Split t c") auto
  show "\<forall>l \<in> set (take k (Split t c)). c \<notin> set l"
    using Split_sep_free by (metis in_set_takeD)
qed

lemma Split_Join_drop:
  assumes "k < length (Split t c)"
  shows "Split (Join (drop k (Split t c)) c) c = drop k (Split t c)"
proof (rule Split_Join)
  show "drop k (Split t c) \<noteq> []" using assms by simp
  show "\<forall>l \<in> set (drop k (Split t c)). c \<notin> set l"
    using Split_sep_free by (metis in_set_dropD)
qed


section \<open>The window-building loop\<close>

declare collect.simps [simp del]
declare extendStep.simps [simp del]

lemma collect_unfold:
  "collect P p width maxHeight n st =
     (if running maxHeight n st then collect P p width maxHeight n (extendStep P p width maxHeight n st)
      else st)"
  by (cases st) (simp only: running_def collect.simps split: prod.split, simp)

lemma collect_induct [consumes 1, case_names stop step]:
  assumes "Q st"
    and "\<And>st. Q st \<Longrightarrow> running maxHeight n st \<Longrightarrow> Q (extendStep P p width maxHeight n st)"
  shows "Q (collect P p width maxHeight n st) \<and> \<not> running maxHeight n (collect P p width maxHeight n st)"
  using assms
proof (induction P p width maxHeight n st rule: collect.induct)
  case (1 P p width maxHeight n low high height entries extendLow)
  let ?st = "(low, high, height, entries, extendLow)"
  show ?case
  proof (cases "running maxHeight n ?st")
    case True
    then have g: "height < maxHeight \<and> \<not> (low = 0 \<and> high = n)" by (simp add: running_def)
    have "Q (extendStep P p width maxHeight n ?st)" using "1.prems" True by blast
    from "1.IH" [OF g this "1.prems"(2)] show ?thesis using True by (subst (1 2) collect_unfold) simp
  next
    case False
    then show ?thesis using "1.prems"(1) by (subst (1 2) collect_unfold) simp
  qed
qed

lemma length_Split_lineCount: "int (length (Split (text s) nl)) = lineCount s"
  by (simp add: length_Split lineCount_def)

lemma lineCount_pos: "1 \<le> lineCount s"
  by (simp add: lineCount_def)

lemma extendStep_cut_in_range:
  assumes "height < maxHeight" "getEntry P p width i = (s, h)" "maxHeight < height + h"
  shows "0 < height + h - maxHeight \<and> height + h - maxHeight < int (length (Split (text s) nl))"
proof -
  from assms(2) have "h = int (length (Split (text s) nl))"
    by (auto simp: getEntry_def Let_def length_Split)
  with assms(1,3) show ?thesis by simp
qed

lemma lineCount_take:
  assumes "0 < k" "k \<le> lineCount s"
  shows "lineCount (s\<lparr>text := Join (take (nat k) (Split (text s) nl)) nl\<rparr>) = k"
proof -
  have "0 < nat k" "nat k \<le> length (Split (text s) nl)"
    using assms length_Split_lineCount [of s] by linarith+
  from Count_Join_take [OF this] show ?thesis using assms by (simp add: lineCount_def)
qed

lemma lineCount_drop:
  assumes "0 \<le> k" "k < lineCount s"
  shows "lineCount (s\<lparr>text := Join (drop (nat k) (Split (text s) nl)) nl\<rparr>) = lineCount s - k"
proof -
  have "nat k < length (Split (text s) nl)"
    using assms length_Split_lineCount [of s] by linarith
  from Count_Join_drop [OF this] show ?thesis
    using assms length_Split_lineCount [of s] by (simp add: lineCount_def)
qed

lemma sum_extend_low:
  fixes f :: "int \<Rightarrow> int"
  assumes "low \<le> high"
  shows "sum f {low - 1 ..< high} = f (low - 1) + sum f {low ..< high}"
proof -
  have "{low - 1 ..< high} = insert (low - 1) {low ..< high}" using assms by auto
  then show ?thesis by simp
qed

lemma sum_extend_high:
  fixes f :: "int \<Rightarrow> int"
  assumes "low \<le> high"
  shows "sum f {low ..< high + 1} = sum f {low ..< high} + f high"
proof -
  have "{low ..< high + 1} = insert high {low ..< high}" using assms by auto
  then show ?thesis by simp
qed

lemma extendStep_low:
  assumes "(extendLow \<and> 0 < low) \<or> high = n"
  shows "extendStep P p width maxHeight n (low, high, height, entries, extendLow) =
     (let s = Show P p (low - 1) width; h = lineCount s in
      if maxHeight < height + h then
        (low - 1, high, maxHeight,
         s\<lparr>text := Join (drop (nat (height + h - maxHeight)) (Split (text s) nl)) nl\<rparr> # entries,
         \<not> extendLow)
      else (low - 1, high, height + h, s # entries, \<not> extendLow))"
  using assms by (simp add: extendStep.simps getEntry_def lineCount_def Let_def)

lemma extendStep_high:
  assumes "\<not> ((extendLow \<and> 0 < low) \<or> high = n)"
  shows "extendStep P p width maxHeight n (low, high, height, entries, extendLow) =
     (let s = Show P p high width; h = lineCount s in
      if maxHeight < height + h then
        (low, high + 1, maxHeight,
         entries @ [s\<lparr>text := Join (take (nat (h - (height + h - maxHeight))) (Split (text s) nl)) nl\<rparr>],
         \<not> extendLow)
      else (low, high + 1, height + h, entries @ [s], \<not> extendLow))"
  using assms by (simp add: extendStep.simps getEntry_def length_Split lineCount_def Let_def)

lemma extendStep_windowInv:
  assumes "windowInv P p width maxHeight n st" "running maxHeight n st"
  shows "windowInv P p width maxHeight n (extendStep P p width maxHeight n st)"
proof -
  obtain low high height entries extendLow where st: "st = (low, high, height, entries, extendLow)"
    by (metis prod_cases5)
  from assms have i: "0 \<le> low" "low \<le> high" "high \<le> n" "length entries = nat (high - low)"
      "height = sum_list (map lineCount entries)" "0 \<le> height" "height \<le> maxHeight"
      "height \<le> sum (entryHeight P p width) {low ..< high}"
    and r: "height < maxHeight" "\<not> (low = 0 \<and> high = n)"
    by (simp_all add: st windowInv_def running_def)
  show ?thesis
  proof (cases "(extendLow \<and> 0 < low) \<or> high = n")
    case True
    define s where "s = Show P p (low - 1) width"
    have lo: "0 < low" using True i r by auto
    have e: "entryHeight P p width (low - 1) = lineCount s" by (simp add: entryHeight_def s_def)
    have len: "nat (high - (low - 1)) = Suc (nat (high - low))" using i by simp
    show ?thesis
    proof (cases "maxHeight < height + lineCount s")
      case over: True
      have "lineCount (s\<lparr>text := Join (drop (nat (height + lineCount s - maxHeight)) (Split (text s) nl)) nl\<rparr>)
            = maxHeight - height"
        using lineCount_drop [of "height + lineCount s - maxHeight" s] over r by simp
      then show ?thesis
        using True over i r lo len e sum_extend_low [OF i(2), of "entryHeight P p width"]
        by (simp add: st extendStep_low windowInv_def Let_def s_def [symmetric])
    next
      case False
      then show ?thesis
        using True i r lo len e sum_extend_low [OF i(2), of "entryHeight P p width"] lineCount_pos [of s]
        by (simp add: st extendStep_low windowInv_def Let_def s_def [symmetric])
    qed
  next
    case False
    define s where "s = Show P p high width"
    have hi: "high < n" using False i by auto
    have e: "entryHeight P p width high = lineCount s" by (simp add: entryHeight_def s_def)
    have len: "nat (high + 1 - low) = Suc (nat (high - low))" using i by simp
    show ?thesis
    proof (cases "maxHeight < height + lineCount s")
      case over: True
      have "lineCount (s\<lparr>text := Join (take (nat (lineCount s - (height + lineCount s - maxHeight))) (Split (text s) nl)) nl\<rparr>)
            = maxHeight - height"
        using lineCount_take [of "maxHeight - height" s] over r by simp
      then show ?thesis
        using False over i r hi len e sum_extend_high [OF i(2), of "entryHeight P p width"]
        by (simp add: st extendStep_high windowInv_def Let_def s_def [symmetric])
    next
      case nover: False
      then show ?thesis
        using False i r hi len e sum_extend_high [OF i(2), of "entryHeight P p width"] lineCount_pos [of s]
        by (simp add: st extendStep_high windowInv_def Let_def s_def [symmetric])
    qed
  qed
qed

lemma window_seedOf:
  "window P width maxHeight l =
     collect P (provider l) width maxHeight (Len P (provider l)) (seedOf l, seedOf l, 0, [], False)"
  by (simp add: window_def seedOf_def Let_def)

lemma extendStep_holds:
  "holds i st \<Longrightarrow> holds i (extendStep P p width maxHeight n st)"
  by (cases st) (auto simp: holds_def extendStep.simps getEntry_def Let_def split: if_splits)

lemma totalHeight_sum:
  "totalHeight P p width n = sum (entryHeight P p width) {0 ..< n}"
proof -
  have "{0 ..< n} = set [0 .. n - 1]" by auto
  then show ?thesis
    by (simp only: totalHeight_def sum_set_upto_conv_sum_list_int)
qed

lemma sum_full_range:
  fixes f :: "int \<Rightarrow> int"
  assumes "0 \<le> low" "low \<le> high" "high \<le> n" "0 < n" "\<And>i. 1 \<le> f i"
    and "sum f {0 ..< n} \<le> sum f {low ..< high}"
  shows "low = 0 \<and> high = n"
proof (rule ccontr)
  assume "\<not> (low = 0 \<and> high = n)"
  then have ne: "{0 ..< n} - {low ..< high} \<noteq> {}" using assms(1-4) by auto
  have "sum f {0 ..< n} = sum f ({0 ..< n} - {low ..< high}) + sum f {low ..< high}"
    using assms(1-3) by (intro sum.subset_diff) auto
  moreover have "0 < sum f ({0 ..< n} - {low ..< high})"
  proof (rule sum_pos)
    show "finite ({0 ..< n} - {low ..< high})" by simp
    show "{0 ..< n} - {low ..< high} \<noteq> {}" by (rule ne)
    show "0 < f i" for i using assms(5) [of i] by linarith
  qed
  ultimately show False using assms(6) by linarith
qed

lemma window_first_step:
  assumes "0 < Len P (provider l)" "- 1 \<le> selected l" "selected l < Len P (provider l)"
    and "1 \<le> maxHeight"
  shows "window P width maxHeight l =
           collect P (provider l) width maxHeight (Len P (provider l))
             (extendStep P (provider l) width maxHeight (Len P (provider l))
                (seedOf l, seedOf l, 0, [], False))"
    and "extendStep P (provider l) width maxHeight (Len P (provider l))
           (seedOf l, seedOf l, 0, [], False) =
         (let s = Show P (provider l) (seedOf l) width in
          (seedOf l, seedOf l + 1, min maxHeight (lineCount s),
           [if maxHeight < lineCount s
            then s\<lparr>text := Join (take (nat maxHeight) (Split (text s) nl)) nl\<rparr> else s],
           True))"
proof -
  have s: "0 \<le> seedOf l" "seedOf l < Len P (provider l)"
    using assms by (auto simp: seedOf_def)
  then have "running maxHeight (Len P (provider l)) (seedOf l, seedOf l, 0, [], False)"
    using assms by (auto simp: running_def)
  then show "window P width maxHeight l =
           collect P (provider l) width maxHeight (Len P (provider l))
             (extendStep P (provider l) width maxHeight (Len P (provider l))
                (seedOf l, seedOf l, 0, [], False))"
    by (simp add: window_seedOf collect_unfold [of _ _ _ _ _ "(seedOf l, seedOf l, 0, [], False)"])
  show "extendStep P (provider l) width maxHeight (Len P (provider l))
           (seedOf l, seedOf l, 0, [], False) =
         (let s = Show P (provider l) (seedOf l) width in
          (seedOf l, seedOf l + 1, min maxHeight (lineCount s),
           [if maxHeight < lineCount s
            then s\<lparr>text := Join (take (nat maxHeight) (Split (text s) nl)) nl\<rparr> else s],
           True))"
    using s by (simp add: extendStep_high Let_def min_def)
qed

lemma window_no_budget:
  assumes "maxHeight \<le> 0"
  shows "window P width maxHeight l = (seedOf l, seedOf l, 0, [], False)"
proof -
  have "\<not> running maxHeight (Len P (provider l)) (seedOf l, seedOf l, 0, [], False)"
    using assms by (simp add: running_def)
  then show ?thesis
    by (simp add: window_seedOf collect_unfold [of _ _ _ _ _ "(seedOf l, seedOf l, 0, [], False)"])
qed

lemma window_windowInv:
  assumes "0 < Len P (provider l)" "- 1 \<le> selected l" "selected l < Len P (provider l)"
    and "0 \<le> maxHeight"
  shows "windowInv P (provider l) width maxHeight (Len P (provider l)) (window P width maxHeight l)
         \<and> \<not> running maxHeight (Len P (provider l)) (window P width maxHeight l)"
proof -
  have s: "0 \<le> seedOf l" "seedOf l < Len P (provider l)"
    using assms by (auto simp: seedOf_def)
  have "windowInv P (provider l) width maxHeight (Len P (provider l)) (seedOf l, seedOf l, 0, [], False)"
    using s assms by (simp add: windowInv_def)
  then show ?thesis
    unfolding window_seedOf
    by (rule collect_induct) (rule extendStep_windowInv)
qed

lemma window_holds_seed:
  assumes "0 < Len P (provider l)" "- 1 \<le> selected l" "selected l < Len P (provider l)"
    and "1 \<le> maxHeight"
  shows "holds (seedOf l) (window P width maxHeight l)"
proof -
  have "holds (seedOf l) (extendStep P (provider l) width maxHeight (Len P (provider l))
                (seedOf l, seedOf l, 0, [], False))"
    by (simp add: window_first_step(2) [OF assms] Let_def holds_def)
  then have "holds (seedOf l) (collect P (provider l) width maxHeight (Len P (provider l))
             (extendStep P (provider l) width maxHeight (Len P (provider l))
                (seedOf l, seedOf l, 0, [], False)))
        \<and> \<not> running maxHeight (Len P (provider l)) (collect P (provider l) width maxHeight (Len P (provider l))
             (extendStep P (provider l) width maxHeight (Len P (provider l))
                (seedOf l, seedOf l, 0, [], False)))"
    by (rule collect_induct) (rule extendStep_holds)
  then show ?thesis by (simp add: window_first_step(1) [OF assms])
qed

text \<open>
  Claim C3 (the window invariant), as the code keeps it: for a provider with entries and a
  selection among them, the window \<open>[low, high)\<close> of \<^verbatim>\<open>List\<close> contains the selection
  whenever the height budget is at least one line; the rendered height (the variable
  \<^verbatim>\<open>height\<close>, which is the number of lines of the collected entries) does not exceed
  a budget that is not negative; and the window is the whole set whenever all entries
  together have at most \<open>maxHeight\<close> lines.
\<close>

theorem window_invariant:
  assumes "0 < Len P (provider l)" "0 \<le> selected l" "selected l < Len P (provider l)"
    and "window P width maxHeight l = (low, high, height, entries, extendLow)"
  shows "(1 \<le> maxHeight \<longrightarrow> low \<le> selected l \<and> selected l < high)
       \<and> (0 \<le> maxHeight \<longrightarrow> height \<le> maxHeight)
       \<and> sum_list (map lineCount entries) = height
       \<and> (totalHeight P (provider l) width (Len P (provider l)) \<le> maxHeight
            \<longrightarrow> low = 0 \<and> high = Len P (provider l))"
proof (cases "0 \<le> maxHeight")
  case True
  have sel: "- 1 \<le> selected l" using assms(2) by simp
  have seed: "seedOf l = selected l" using assms(2) by (simp add: seedOf_def)
  from window_windowInv [OF assms(1) sel assms(3) True, of width]
  have i: "0 \<le> low" "low \<le> high" "high \<le> Len P (provider l)"
      "height = sum_list (map lineCount entries)" "height \<le> maxHeight"
      "height \<le> sum (entryHeight P (provider l) width) {low ..< high}"
    and r: "\<not> (height < maxHeight \<and> \<not> (low = 0 \<and> high = Len P (provider l)))"
    by (simp_all add: assms(4) windowInv_def running_def)
  have a: "1 \<le> maxHeight \<longrightarrow> low \<le> selected l \<and> selected l < high"
  proof
    assume "1 \<le> maxHeight"
    from window_holds_seed [OF assms(1) sel assms(3) this, of width]
    show "low \<le> selected l \<and> selected l < high" by (simp add: assms(4) holds_def seed)
  qed
  have c: "totalHeight P (provider l) width (Len P (provider l)) \<le> maxHeight
            \<longrightarrow> low = 0 \<and> high = Len P (provider l)"
  proof
    assume t: "totalHeight P (provider l) width (Len P (provider l)) \<le> maxHeight"
    show "low = 0 \<and> high = Len P (provider l)"
    proof (cases "low = 0 \<and> high = Len P (provider l)")
      case True
      then show ?thesis .
    next
      case False
      with r have "maxHeight \<le> height" by simp
      with t i(6) have "sum (entryHeight P (provider l) width) {0 ..< Len P (provider l)}
                        \<le> sum (entryHeight P (provider l) width) {low ..< high}"
        by (simp add: totalHeight_sum)
      from sum_full_range [OF i(1) i(2) i(3) assms(1) _ this]
      show ?thesis by (simp add: entryHeight_def lineCount_pos)
    qed
  qed
  from a c i(4) i(5) show ?thesis by simp
next
  case False
  then have m: "maxHeight \<le> 0" by simp
  have t: "0 < totalHeight P (provider l) width (Len P (provider l))"
    unfolding totalHeight_sum
  proof (rule sum_pos)
    show "finite {0 ..< Len P (provider l)}" by simp
    show "{0 ..< Len P (provider l)} \<noteq> {}" using assms(1) by simp
    show "0 < entryHeight P (provider l) width i" for i
      using lineCount_pos [of "Show P (provider l) i width"] by (simp add: entryHeight_def)
  qed
  from window_no_budget [OF m, of P width l] assms(4) False t show ?thesis by simp
qed

theorem window_invariant_witness:
  "window (uniformProvider 3 ''a'' 0) 80 5 (exampleListing 1 0)
     = (0, 3, 3, [\<lparr>text = ''a'', style = []\<rparr>, \<lparr>text = ''a'', style = []\<rparr>, \<lparr>text = ''a'', style = []\<rparr>], True)
   \<and> totalHeight (uniformProvider 3 ''a'' 0) [] 80 3 = 3"
proof -
  have w: "window (uniformProvider 3 ''a'' 0) 80 5 (exampleListing 1 0)
     = (0, 3, 3, [\<lparr>text = ''a'', style = []\<rparr>, \<lparr>text = ''a'', style = []\<rparr>, \<lparr>text = ''a'', style = []\<rparr>], True)"
    by code_simp
  have t: "totalHeight (uniformProvider 3 ''a'' 0) [] 80 3 = 3"
    by code_simp
  have h: "0 < Len (uniformProvider 3 ''a'' 0) (provider (exampleListing 1 0))"
    "0 \<le> selected (exampleListing 1 0)"
    "selected (exampleListing 1 0) < Len (uniformProvider 3 ''a'' 0) (provider (exampleListing 1 0))"
    by (simp_all add: uniformProvider_def exampleListing_def)
  from window_invariant [OF h w] w t show ?thesis by simp
qed

text \<open>
  Claim C3 as stated has no condition on the height budget. With a budget of 0 the loop
  does not run and the window is empty, \<open>low = high = selected\<close>, so \<open>selected < high\<close>
  fails; with a negative budget the height 0 exceeds the budget.
\<close>

theorem window_empty_without_budget:
  "0 < Len (uniformProvider 1 ''a'' 0) (provider (exampleListing 0 0))
   \<and> selected (exampleListing 0 0) = 0
   \<and> window (uniformProvider 1 ''a'' 0) 80 0 (exampleListing 0 0) = (0, 0, 0, [], False)
   \<and> \<not> selected (exampleListing 0 0)
         < fst (snd (window (uniformProvider 1 ''a'' 0) 80 0 (exampleListing 0 0)))
   \<and> \<not> fst (snd (snd (window (uniformProvider 1 ''a'' 0) 80 (- 1) (exampleListing 0 0)))) \<le> - 1"
  by code_simp

text \<open>
  Claim C5 (line-wise truncation): whenever the loop body runs (\<open>height < maxHeight\<close>) and
  the entry it adds has more lines than the remaining budget \<open>maxHeight - height\<close>, then
  \<^item> extending downward, the entry pushed at the back keeps exactly its first
    \<open>maxHeight - height\<close> lines;
  \<^item> extending upward, the entry pushed at the front keeps exactly its last
    \<open>maxHeight - height\<close> lines;
  \<^item> in both cases the accumulated height becomes \<open>maxHeight\<close>.
  In every run of the body the accumulated height stays within \<open>maxHeight\<close>.
\<close>

theorem extendStep_truncates_linewise:
  assumes "height < maxHeight"
  shows "(\<not> ((extendLow \<and> 0 < low) \<or> high = n)
            \<and> maxHeight - height < lineCount (Show P p high width) \<longrightarrow>
          (let s = Show P p high width;
               s' = s\<lparr>text := Join (take (nat (maxHeight - height)) (Split (text s) nl)) nl\<rparr>
           in extendStep P p width maxHeight n (low, high, height, entries, extendLow)
                = (low, high + 1, maxHeight, entries @ [s'], \<not> extendLow)
              \<and> Split (text s') nl = take (nat (maxHeight - height)) (Split (text s) nl)
              \<and> lineCount s' = maxHeight - height))
       \<and> (((extendLow \<and> 0 < low) \<or> high = n)
            \<and> maxHeight - height < lineCount (Show P p (low - 1) width) \<longrightarrow>
          (let s = Show P p (low - 1) width;
               lines = Split (text s) nl;
               s' = s\<lparr>text := Join (drop (length lines - nat (maxHeight - height)) lines) nl\<rparr>
           in extendStep P p width maxHeight n (low, high, height, entries, extendLow)
                = (low - 1, high, maxHeight, s' # entries, \<not> extendLow)
              \<and> Split (text s') nl = drop (length lines - nat (maxHeight - height)) lines
              \<and> lineCount s' = maxHeight - height))
       \<and> fst (snd (snd (extendStep P p width maxHeight n (low, high, height, entries, extendLow))))
            \<le> maxHeight"
proof -
  let ?b = "maxHeight - height"
  have down: "\<not> ((extendLow \<and> 0 < low) \<or> high = n)
            \<and> ?b < lineCount (Show P p high width) \<longrightarrow>
          (let s = Show P p high width;
               s' = s\<lparr>text := Join (take (nat ?b) (Split (text s) nl)) nl\<rparr>
           in extendStep P p width maxHeight n (low, high, height, entries, extendLow)
                = (low, high + 1, maxHeight, entries @ [s'], \<not> extendLow)
              \<and> Split (text s') nl = take (nat ?b) (Split (text s) nl)
              \<and> lineCount s' = ?b)"
  proof
    assume a: "\<not> ((extendLow \<and> 0 < low) \<or> high = n) \<and> ?b < lineCount (Show P p high width)"
    define s where "s = Show P p high width"
    have k: "lineCount s - (height + lineCount s - maxHeight) = ?b" by simp
    have "extendStep P p width maxHeight n (low, high, height, entries, extendLow)
            = (low, high + 1, maxHeight,
               entries @ [s\<lparr>text := Join (take (nat ?b) (Split (text s) nl)) nl\<rparr>], \<not> extendLow)"
      using a by (simp add: extendStep_high Let_def s_def [symmetric])
    moreover have "Split (Join (take (nat ?b) (Split (text s) nl)) nl) nl
                     = take (nat ?b) (Split (text s) nl)"
      using assms by (intro Split_Join_take) simp
    moreover have "lineCount (s\<lparr>text := Join (take (nat ?b) (Split (text s) nl)) nl\<rparr>) = ?b"
      using a assms by (intro lineCount_take) (simp_all add: s_def)
    ultimately show "let s = Show P p high width;
               s' = s\<lparr>text := Join (take (nat ?b) (Split (text s) nl)) nl\<rparr>
           in extendStep P p width maxHeight n (low, high, height, entries, extendLow)
                = (low, high + 1, maxHeight, entries @ [s'], \<not> extendLow)
              \<and> Split (text s') nl = take (nat ?b) (Split (text s) nl)
              \<and> lineCount s' = ?b"
      by (simp add: Let_def s_def [symmetric])
  qed
  have upw: "((extendLow \<and> 0 < low) \<or> high = n)
            \<and> ?b < lineCount (Show P p (low - 1) width) \<longrightarrow>
          (let s = Show P p (low - 1) width;
               lines = Split (text s) nl;
               s' = s\<lparr>text := Join (drop (length lines - nat ?b) lines) nl\<rparr>
           in extendStep P p width maxHeight n (low, high, height, entries, extendLow)
                = (low - 1, high, maxHeight, s' # entries, \<not> extendLow)
              \<and> Split (text s') nl = drop (length lines - nat ?b) lines
              \<and> lineCount s' = ?b)"
  proof
    assume a: "((extendLow \<and> 0 < low) \<or> high = n) \<and> ?b < lineCount (Show P p (low - 1) width)"
    define s where "s = Show P p (low - 1) width"
    define k where "k = length (Split (text s) nl) - nat ?b"
    have len: "int (length (Split (text s) nl)) = lineCount s" by (rule length_Split_lineCount)
    have over: "?b < lineCount s" using a by (simp add: s_def)
    have k: "nat (height + lineCount s - maxHeight) = k" "int k = lineCount s - ?b"
      "k < length (Split (text s) nl)"
      using over assms len by (simp_all add: k_def)
    have "extendStep P p width maxHeight n (low, high, height, entries, extendLow)
            = (low - 1, high, maxHeight,
               s\<lparr>text := Join (drop k (Split (text s) nl)) nl\<rparr> # entries, \<not> extendLow)"
      using a over by (simp add: extendStep_low Let_def s_def [symmetric] k(1))
    moreover have "Split (Join (drop k (Split (text s) nl)) nl) nl = drop k (Split (text s) nl)"
      using k(3) by (rule Split_Join_drop)
    moreover have "lineCount (s\<lparr>text := Join (drop k (Split (text s) nl)) nl\<rparr>) = ?b"
    proof -
      have "0 \<le> int k" "int k < lineCount s" using k(2) assms by simp_all
      then have "lineCount (s\<lparr>text := Join (drop (nat (int k)) (Split (text s) nl)) nl\<rparr>)
                   = lineCount s - int k"
        by (rule lineCount_drop)
      then have "lineCount (s\<lparr>text := Join (drop k (Split (text s) nl)) nl\<rparr>)
                   = lineCount s - int k"
        by (simp only: nat_int)
      with k(2) show ?thesis by linarith
    qed
    ultimately show "let s = Show P p (low - 1) width;
               lines = Split (text s) nl;
               s' = s\<lparr>text := Join (drop (length lines - nat ?b) lines) nl\<rparr>
           in extendStep P p width maxHeight n (low, high, height, entries, extendLow)
                = (low - 1, high, maxHeight, s' # entries, \<not> extendLow)
              \<and> Split (text s') nl = drop (length lines - nat ?b) lines
              \<and> lineCount s' = ?b"
      by (simp add: Let_def s_def [symmetric] k_def [symmetric])
  qed
  obtain low' high' height' entries' extendLow' where
    e: "extendStep P p width maxHeight n (low, high, height, entries, extendLow)
          = (low', high', height', entries', extendLow')"
    by (metis prod_cases5)
  from extendStep_height [OF assms e] have cap:
    "fst (snd (snd (extendStep P p width maxHeight n (low, high, height, entries, extendLow))))
       \<le> maxHeight"
    by (simp add: e)
  from down upw cap show ?thesis by blast
qed

theorem extendStep_truncates_linewise_witness:
  "extendStep (uniformProvider 5 ''a\<newline>b\<newline>c'' 0) [] 80 5 5
      (2, 3, 3, [\<lparr>text = ''a\<newline>b\<newline>c'', style = []\<rparr>], False)
     = (2, 4, 5, [\<lparr>text = ''a\<newline>b\<newline>c'', style = []\<rparr>, \<lparr>text = ''a\<newline>b'', style = []\<rparr>], True)
   \<and> extendStep (uniformProvider 5 ''a\<newline>b\<newline>c'' 0) [] 80 5 5
      (2, 3, 3, [\<lparr>text = ''a\<newline>b\<newline>c'', style = []\<rparr>], True)
     = (1, 3, 5, [\<lparr>text = ''b\<newline>c'', style = []\<rparr>, \<lparr>text = ''a\<newline>b\<newline>c'', style = []\<rparr>], False)"
proof -
  have h: "(3::int) < 5" by simp
  show ?thesis
    using extendStep_truncates_linewise [OF h, of False 2 3 5 "uniformProvider 5 ''a\<newline>b\<newline>c'' 0" "[]" 80
        "[\<lparr>text = ''a\<newline>b\<newline>c'', style = []\<rparr>]"]
      extendStep_truncates_linewise [OF h, of True 2 3 5 "uniformProvider 5 ''a\<newline>b\<newline>c'' 0" "[]" 80
        "[\<lparr>text = ''a\<newline>b\<newline>c'', style = []\<rparr>]"]
    by (simp add: uniformProvider_def lineCount_def nl_def Let_def)
qed

section \<open>Navigation\<close>

lemma navigate_provider: "provider (navigate P x l) = provider l"
  by (cases x) (simp_all add: up_def down_def pageUp_def pageDown_def Let_def)

lemma navigate_validListing: "validListing P l \<Longrightarrow> validListing P (navigate P x l)"
  by (cases x) (auto simp: validListing_def up_def down_def pageUp_def pageDown_def Let_def split: if_splits)

lemma navigateAll_validListing: "validListing P l \<Longrightarrow> validListing P (navigateAll P xs l) \<and> provider (navigateAll P xs l) = provider l"
  unfolding navigateAll_def
proof (induction xs arbitrary: l)
  case Nil
  then show ?case by simp
next
  case (Cons x xs)
  from Cons.prems have "validListing P (navigate P x l)" by (rule navigate_validListing)
  from Cons.IH [OF this] show ?case by (simp add: navigate_provider)
qed

lemma navigate_empty: "Len P (provider l) = 0 \<Longrightarrow> navigate P x l = l"
  by (cases x) (simp_all add: up_def down_def pageUp_def pageDown_def)

text \<open>
  From a listing with a selection, or with no entries, any run of \<^verbatim>\<open>up\<close>, \<^verbatim>\<open>down\<close>,
  \<^verbatim>\<open>pageUp\<close> and \<^verbatim>\<open>pageDown\<close> leaves the provider untouched and the listing of that
  kind, so the selection stays within \<open>[- 1, count - 1]\<close>; with no entries every operation
  changes nothing; with entries, \<^verbatim>\<open>up\<close> at index 0 goes to \<open>count - 1\<close> when \<open>cycle\<close> is
  set and stays at 0 otherwise, \<^verbatim>\<open>down\<close> at \<open>count - 1\<close> goes to 0 when \<open>cycle\<close> is set
  and stays otherwise, and \<^verbatim>\<open>pageUp\<close> and \<^verbatim>\<open>pageDown\<close> clamp to 0 and \<open>count - 1\<close> and
  never move the other way. (With one entry, index 0 is index \<open>count - 1\<close>, and wrapping
  and clamping are the same move; the equivalences are stated for two entries or more.)
\<close>

theorem navigation_keeps_selection_in_range:
  assumes "validListing P l"
  shows "(let l' = navigateAll P xs l; n = Len P (provider l) in
            provider l' = provider l \<and> validListing P l' \<and> - 1 \<le> selected l' \<and> selected l' \<le> n - 1)
       \<and> (Len P (provider l) = 0 \<longrightarrow> navigate P x l = l)
       \<and> (let n = Len P (provider l) in 0 < n \<longrightarrow>
             selected (up P cycle l)
               = (if selected l = 0 then (if cycle then n - 1 else 0) else selected l - 1)
           \<and> selected (down P cycle l)
               = (if selected l = n - 1 then (if cycle then 0 else n - 1) else selected l + 1)
           \<and> selected (pageUp P l) = max 0 (selected l - pagesize l)
           \<and> selected (pageDown P l) = min (n - 1) (selected l + pagesize l)
           \<and> selected (pageUp P l) \<le> selected l
           \<and> selected l \<le> selected (pageDown P l)
           \<and> (2 \<le> n \<and> selected l = 0 \<longrightarrow> (selected (up P cycle l) = n - 1 \<longleftrightarrow> cycle))
           \<and> (2 \<le> n \<and> selected l = n - 1 \<longrightarrow> (selected (down P cycle l) = 0 \<longleftrightarrow> cycle)))"
proof -
  have a: "validListing P (navigateAll P xs l)" "provider (navigateAll P xs l) = provider l"
    using navigateAll_validListing [OF assms] by simp_all
  have r: "- 1 \<le> selected (navigateAll P xs l) \<and> selected (navigateAll P xs l) \<le> Len P (provider l) - 1"
    using a unfolding validListing_def by (auto simp: Let_def split: if_splits)
  have e: "Len P (provider l) = 0 \<longrightarrow> navigate P x l = l"
    by (simp add: navigate_empty)
  have s: "let n = Len P (provider l) in 0 < n \<longrightarrow>
             selected (up P cycle l)
               = (if selected l = 0 then (if cycle then n - 1 else 0) else selected l - 1)
           \<and> selected (down P cycle l)
               = (if selected l = n - 1 then (if cycle then 0 else n - 1) else selected l + 1)
           \<and> selected (pageUp P l) = max 0 (selected l - pagesize l)
           \<and> selected (pageDown P l) = min (n - 1) (selected l + pagesize l)
           \<and> selected (pageUp P l) \<le> selected l
           \<and> selected l \<le> selected (pageDown P l)
           \<and> (2 \<le> n \<and> selected l = 0 \<longrightarrow> (selected (up P cycle l) = n - 1 \<longleftrightarrow> cycle))
           \<and> (2 \<le> n \<and> selected l = n - 1 \<longrightarrow> (selected (down P cycle l) = 0 \<longleftrightarrow> cycle))"
    using assms unfolding validListing_def
    by (auto simp: up_def down_def pageUp_def pageDown_def Let_def split: if_splits)
  from a r e s show ?thesis unfolding Let_def by blast
qed

theorem navigation_keeps_selection_in_range_witness:
  "validListing (uniformProvider 3 ''a'' 0) (exampleListing 0 2)
   \<and> selected (navigateAll (uniformProvider 3 ''a'' 0) [Up True, PageUp, Down False, PageDown, Down True, Up False] (exampleListing 0 2)) = 0
   \<and> selected (up (uniformProvider 3 ''a'' 0) True (exampleListing 0 2)) = 2
   \<and> selected (up (uniformProvider 3 ''a'' 0) False (exampleListing 0 2)) = 0"
proof -
  have v: "validListing (uniformProvider 3 ''a'' 0) (exampleListing 0 2)"
    by (simp add: validListing_def uniformProvider_def exampleListing_def)
  show ?thesis
    using v navigation_keeps_selection_in_range [OF v, of "[Up True, PageUp, Down False, PageDown, Down True, Up False]" PageUp True]
      navigation_keeps_selection_in_range [OF v, of "[]" PageUp False]
    by (simp add: uniformProvider_def exampleListing_def navigateAll_def up_def down_def pageUp_def pageDown_def Let_def)
qed

text \<open>
  Claim C4 (navigation keeps the selection in range): from a valid listing state, any run
  of \<^verbatim>\<open>up\<close>, \<^verbatim>\<open>down\<close>, \<^verbatim>\<open>pageUp\<close> and \<^verbatim>\<open>pageDown\<close> keeps the selection within
  \<open>[- 1, count - 1]\<close>.

  The code does not keep it from a listing with entries and no selection, a state that
  \<^verbatim>\<open>newListing\<close> produces when the provider's \<^verbatim>\<open>Filter\<close> returns \<open>- 1\<close>, that
  \<^verbatim>\<open>List\<close> renders from entry 0 and that \<^verbatim>\<open>accept\<close> guards against. There \<^verbatim>\<open>up\<close>
  decrements the selection to \<open>- 2\<close>, and its test \<^verbatim>\<open>l.selected == -1\<close> lets \<open>- 2\<close>
  stand, with or without \<open>cycle\<close>; \<^verbatim>\<open>pageUp\<close>, which tests \<^verbatim>\<open>l.selected < 0\<close>, goes to 0
  from the same state. The next \<^verbatim>\<open>List\<close> then starts its window at \<open>- 2\<close> and asks the
  provider to show entry \<open>- 2\<close>.
\<close>

theorem up_from_no_selection_leaves_range:
  "Len (uniformProvider 1 ''a'' (- 1)) (provider (newListing 0 (uniformProvider 1 ''a'' (- 1)) [])) = 1
   \<and> selected (newListing 0 (uniformProvider 1 ''a'' (- 1)) []) = - 1
   \<and> selected (up (uniformProvider 1 ''a'' (- 1)) False
         (newListing 0 (uniformProvider 1 ''a'' (- 1)) [])) = - 2
   \<and> selected (up (uniformProvider 1 ''a'' (- 1)) True
         (newListing 0 (uniformProvider 1 ''a'' (- 1)) [])) = - 2
   \<and> \<not> - 1 \<le> selected (navigateAll (uniformProvider 1 ''a'' (- 1)) [Up False]
         (newListing 0 (uniformProvider 1 ''a'' (- 1)) []))
   \<and> selected (pageUp (uniformProvider 1 ''a'' (- 1))
         (newListing 0 (uniformProvider 1 ''a'' (- 1)) [])) = 0
   \<and> window (uniformProvider 1 ''a'' (- 1)) 80 1
         (up (uniformProvider 1 ''a'' (- 1)) False (newListing 0 (uniformProvider 1 ''a'' (- 1)) []))
       = (- 2, - 1, 1, [\<lparr>text = ''a'', style = []\<rparr>], True)"
  by code_simp

section \<open>What List renders\<close>

text \<open>
  Claim C6 (the scrollbar column): for a provider with entries, \<^verbatim>\<open>List\<close> writes the
  entries of the window and, exactly when \<open>0 < low\<close> or \<open>high < count - 1\<close>, attaches the
  scrollbar computed by \<^verbatim>\<open>renderScrollbar(count, low, high, height)\<close> with the width
  reduced by one; otherwise (\<open>low = 0\<close> and \<open>high \<ge> count - 1\<close>) the buffer has no scrollbar.
\<close>

theorem List_scrollbar:
  assumes "Len P (provider l) \<noteq> 0"
    and "window P width maxHeight l = (low, high, height, entries, extendLow)"
  shows "fst (List P R width maxHeight l) =
          (let b = writeEntries R (selected l) low (zip [low .. high - 1] entries)
                     (newBuffer R width)
           in if 0 < low \<or> high < Len P (provider l) - 1
              then extendHorizontal R b
                     (renderScrollbar R (Len P (provider l)) low high height) (width - 1)
              else b)"
  using assms by (simp add: List_def Let_def)

theorem List_scrollbar_witness:
  "window (uniformProvider 10 ''a'' 0) 80 5 (exampleListing 0 0)
     = (0, 5, 5, replicate 5 \<lparr>text = ''a'', style = []\<rparr>, True)
   \<and> findScrollInterval 10 0 5 5 = (0, 3)
   \<and> fst (List (uniformProvider 10 ''a'' 0) plainRenderer 80 5 (exampleListing 0 0))
       = ''a\<newline>a\<newline>a\<newline>a\<newline>a'' @ renderScrollbar plainRenderer 10 0 5 5"
proof -
  have n: "Len (uniformProvider 10 ''a'' 0) (provider (exampleListing 0 0)) \<noteq> 0"
    by (simp add: uniformProvider_def)
  have w: "window (uniformProvider 10 ''a'' 0) 80 5 (exampleListing 0 0)
     = (0, 5, 5, replicate 5 \<lparr>text = ''a'', style = []\<rparr>, True)"
    by code_simp
  have f: "findScrollInterval 10 0 5 5 = (0, 3)" by code_simp
  have e: "writeEntries plainRenderer 0 0 (zip [0 .. 5 - 1] (replicate 5 \<lparr>text = ''a'', style = []\<rparr>)) []
             = ''a\<newline>a\<newline>a\<newline>a\<newline>a''"
    by code_simp
  from List_scrollbar [OF n w, of plainRenderer] w f e show ?thesis
    by (simp add: Let_def uniformProvider_def exampleListing_def plainRenderer_def)
qed

text \<open>
  Claim C9 (no entries): when the provider has no entries, \<^verbatim>\<open>List\<close> leaves the listing
  untouched and returns a buffer into which only the placeholder was written (trimmed to
  the width by \<^verbatim>\<open>TrimWcWidth\<close>): the provider's own placeholder if it has one,
  \<open>(no result)\<close> otherwise; and each navigation operation leaves the listing as it is.
\<close>

theorem List_placeholder:
  assumes "Len P (provider l) = 0"
  shows "List P R width maxHeight l =
           (writes R (newBuffer R width)
              (TrimWcWidth R (case Placeholder P of Some pher \<Rightarrow> pher (provider l)
                               | None \<Rightarrow> ''(no result)'') width) [], l)
         \<and> navigate P x l = l"
  using assms navigate_empty [OF assms] by (simp add: List_def Let_def)

theorem List_placeholder_witness:
  "List (uniformProvider 0 ''a'' (- 1)) plainRenderer 80 5 (exampleListing (- 1) 0)
     = (''(no result)'', exampleListing (- 1) 0)
   \<and> List ((uniformProvider 0 ''a'' (- 1))\<lparr>Placeholder := Some (\<lambda>p. ''nothing here'')\<rparr>)
        plainRenderer 7 5 (exampleListing (- 1) 0)
     = (''nothing'', exampleListing (- 1) 0)
   \<and> navigate (uniformProvider 0 ''a'' (- 1)) (Down True) (exampleListing (- 1) 0) = exampleListing (- 1) 0"
proof -
  have a: "Len (uniformProvider 0 ''a'' (- 1)) (provider (exampleListing (- 1) 0)) = 0"
    by (simp add: uniformProvider_def)
  have b: "Len ((uniformProvider 0 ''a'' (- 1))\<lparr>Placeholder := Some (\<lambda>p. ''nothing here'')\<rparr>)
             (provider (exampleListing (- 1) 0)) = 0"
    by (simp add: uniformProvider_def)
  show ?thesis
    using List_placeholder [OF a, of plainRenderer 80 5 "Down True"]
      List_placeholder [OF b, of plainRenderer 7 5 "Down True"]
    by (simp add: uniformProvider_def plainRenderer_def)
qed

lemma List_state:
  assumes "Len P (provider l) \<noteq> 0"
  shows "snd (List P R width maxHeight l)
           = l\<lparr>pagesize := fst (snd (window P width maxHeight l)) - fst (window P width maxHeight l)\<rparr>"
  using assms by (simp add: List_def Let_def split: prod.split option.split)

lemma List_validListing:
  assumes "validListing P l"
  shows "validListing P (snd (List P R width maxHeight l))"
proof (cases "Len P (provider l) = 0")
  case True
  with assms show ?thesis by (simp add: List_def Let_def)
next
  case False
  with assms have v: "0 < Len P (provider l)" "- 1 \<le> selected l" "selected l < Len P (provider l)"
    by (auto simp: validListing_def Let_def)
  obtain low high height entries extendLow where
    w: "window P width maxHeight l = (low, high, height, entries, extendLow)"
    by (metis prod_cases5)
  have "low \<le> high"
  proof (cases "0 \<le> maxHeight")
    case True
    from window_windowInv [OF v True, of width] show ?thesis by (simp add: w windowInv_def)
  next
    case False
    then have "maxHeight \<le> 0" by simp
    from window_no_budget [OF this, of P width l] show ?thesis by (simp add: w)
  qed
  with assms False show ?thesis
    by (simp add: List_state [OF False] w validListing_def Let_def)
qed

text \<open>
  Claim C10 (the page size), as the code keeps it. For a provider with entries and a
  selection in \<open>[- 1, count)\<close>, \<^verbatim>\<open>List\<close> changes nothing of the listing but the page size,
  which becomes \<open>high - low\<close>.
  \<^item> With \<open>maxHeight \<ge> 1\<close> the first run of the loop body collects the seed entry (the
    selection, or entry 0 for the selection \<open>- 1\<close>), the window contains the seed, the page
    size is at least 1, and afterwards \<^verbatim>\<open>pageUp\<close> moves a selection that is not 0 and
    \<^verbatim>\<open>pageDown\<close> moves a selection that is not \<open>count - 1\<close>.
  \<^item> With \<open>maxHeight \<le> 0\<close> the loop collects nothing and the page size is 0; afterwards
    \<^verbatim>\<open>pageDown\<close> leaves the selection unchanged and \<^verbatim>\<open>pageUp\<close> yields
    \<open>max 0 selected\<close>: unchanged for a selection that is not negative, and 0 for the
    selection \<open>- 1\<close>.
\<close>

theorem List_pagesize:
  assumes "0 < Len P (provider l)" "- 1 \<le> selected l" "selected l < Len P (provider l)"
  shows "(let l' = snd (List P R width maxHeight l);
              w = window P width maxHeight l;
              n = Len P (provider l);
              first = extendStep P (provider l) width maxHeight n (seedOf l, seedOf l, 0, [], False)
          in provider l' = provider l \<and> selected l' = selected l
             \<and> pagesize l' = fst (snd w) - fst w
             \<and> (1 \<le> maxHeight \<longrightarrow>
                   w = collect P (provider l) width maxHeight n first
                 \<and> first = (let s = Show P (provider l) (seedOf l) width in
                            (seedOf l, seedOf l + 1, min maxHeight (lineCount s),
                             [if maxHeight < lineCount s
                              then s\<lparr>text := Join (take (nat maxHeight) (Split (text s) nl)) nl\<rparr>
                              else s],
                             True))
                 \<and> holds (seedOf l) w
                 \<and> 1 \<le> pagesize l'
                 \<and> (selected l \<noteq> 0 \<longrightarrow> selected (pageUp P l') \<noteq> selected l)
                 \<and> (selected l \<noteq> n - 1 \<longrightarrow> selected (pageDown P l') \<noteq> selected l))
             \<and> (maxHeight \<le> 0 \<longrightarrow>
                   w = (seedOf l, seedOf l, 0, [], False)
                 \<and> pagesize l' = 0
                 \<and> selected (pageDown P l') = selected l
                 \<and> selected (pageUp P l') = max 0 (selected l)))"
proof -
  define l' where "l' = snd (List P R width maxHeight l)"
  define w where "w = window P width maxHeight l"
  define n where "n = Len P (provider l)"
  define first where
    "first = extendStep P (provider l) width maxHeight n (seedOf l, seedOf l, 0, [], False)"
  have ne: "Len P (provider l) \<noteq> 0" using assms(1) by simp
  have l': "l' = l\<lparr>pagesize := fst (snd w) - fst w\<rparr>"
    unfolding l'_def w_def by (rule List_state [OF ne])
  have a: "provider l' = provider l" "selected l' = selected l" "pagesize l' = fst (snd w) - fst w"
    by (simp_all add: l')
  have b: "1 \<le> maxHeight \<longrightarrow>
             w = collect P (provider l) width maxHeight n first
           \<and> first = (let s = Show P (provider l) (seedOf l) width in
                      (seedOf l, seedOf l + 1, min maxHeight (lineCount s),
                       [if maxHeight < lineCount s
                        then s\<lparr>text := Join (take (nat maxHeight) (Split (text s) nl)) nl\<rparr>
                        else s],
                       True))
           \<and> holds (seedOf l) w
           \<and> 1 \<le> pagesize l'
           \<and> (selected l \<noteq> 0 \<longrightarrow> selected (pageUp P l') \<noteq> selected l)
           \<and> (selected l \<noteq> n - 1 \<longrightarrow> selected (pageDown P l') \<noteq> selected l)"
  proof
    assume m: "1 \<le> maxHeight"
    note fs = window_first_step [OF assms m, of width]
    have h: "holds (seedOf l) w" unfolding w_def by (rule window_holds_seed [OF assms m])
    obtain low high height entries extendLow where
      w: "w = (low, high, height, entries, extendLow)" by (metis prod_cases5)
    from h have "low < high" by (simp add: w holds_def)
    then have p: "1 \<le> pagesize l'" by (simp add: a w)
    have u: "selected l \<noteq> 0 \<longrightarrow> selected (pageUp P l') \<noteq> selected l"
      using p ne a by (auto simp: pageUp_def Let_def)
    have d: "selected l \<noteq> n - 1 \<longrightarrow> selected (pageDown P l') \<noteq> selected l"
      using p ne a assms(3) by (auto simp: pageDown_def Let_def n_def)
    from fs h p u d
    show "w = collect P (provider l) width maxHeight n first
           \<and> first = (let s = Show P (provider l) (seedOf l) width in
                      (seedOf l, seedOf l + 1, min maxHeight (lineCount s),
                       [if maxHeight < lineCount s
                        then s\<lparr>text := Join (take (nat maxHeight) (Split (text s) nl)) nl\<rparr>
                        else s],
                       True))
           \<and> holds (seedOf l) w
           \<and> 1 \<le> pagesize l'
           \<and> (selected l \<noteq> 0 \<longrightarrow> selected (pageUp P l') \<noteq> selected l)
           \<and> (selected l \<noteq> n - 1 \<longrightarrow> selected (pageDown P l') \<noteq> selected l)"
      unfolding w_def first_def n_def by blast
  qed
  have c: "maxHeight \<le> 0 \<longrightarrow>
             w = (seedOf l, seedOf l, 0, [], False)
           \<and> pagesize l' = 0
           \<and> selected (pageDown P l') = selected l
           \<and> selected (pageUp P l') = max 0 (selected l)"
  proof
    assume m: "maxHeight \<le> 0"
    have w: "w = (seedOf l, seedOf l, 0, [], False)"
      unfolding w_def by (rule window_no_budget [OF m])
    then have p: "pagesize l' = 0" by (simp add: a)
    have d: "selected (pageDown P l') = selected l"
      using p ne a assms(3) by (simp add: pageDown_def Let_def)
    have u: "selected (pageUp P l') = max 0 (selected l)"
      using p ne a by (simp add: pageUp_def Let_def max_def)
    from w p d u
    show "w = (seedOf l, seedOf l, 0, [], False)
           \<and> pagesize l' = 0
           \<and> selected (pageDown P l') = selected l
           \<and> selected (pageUp P l') = max 0 (selected l)"
      by blast
  qed
  from a b c show ?thesis
    unfolding Let_def l'_def [symmetric] w_def [symmetric] n_def [symmetric] first_def [symmetric]
    by blast
qed

theorem List_pagesize_witness:
  "pagesize (snd (List (uniformProvider 10 ''a'' 0) plainRenderer 80 5 (exampleListing 4 0))) = 5
   \<and> holds 4 (window (uniformProvider 10 ''a'' 0) 80 5 (exampleListing 4 0))
   \<and> selected (pageUp (uniformProvider 10 ''a'' 0)
        (snd (List (uniformProvider 10 ''a'' 0) plainRenderer 80 5 (exampleListing 4 0)))) = 0
   \<and> selected (pageDown (uniformProvider 10 ''a'' 0)
        (snd (List (uniformProvider 10 ''a'' 0) plainRenderer 80 5 (exampleListing 4 0)))) = 9
   \<and> pagesize (snd (List (uniformProvider 10 ''a'' 0) plainRenderer 80 0 (exampleListing 4 3))) = 0
   \<and> selected (pageUp (uniformProvider 10 ''a'' 0)
        (snd (List (uniformProvider 10 ''a'' 0) plainRenderer 80 0 (exampleListing 4 3)))) = 4"
proof -
  have h: "0 < Len (uniformProvider 10 ''a'' 0) (provider (exampleListing 4 0))"
    "- 1 \<le> selected (exampleListing 4 0)"
    "selected (exampleListing 4 0) < Len (uniformProvider 10 ''a'' 0) (provider (exampleListing 4 0))"
    by (simp_all add: uniformProvider_def exampleListing_def)
  have h': "0 < Len (uniformProvider 10 ''a'' 0) (provider (exampleListing 4 3))"
    "- 1 \<le> selected (exampleListing 4 3)"
    "selected (exampleListing 4 3) < Len (uniformProvider 10 ''a'' 0) (provider (exampleListing 4 3))"
    by (simp_all add: uniformProvider_def exampleListing_def)
  have w: "window (uniformProvider 10 ''a'' 0) 80 5 (exampleListing 4 0)
             = (2, 7, 5, replicate 5 \<lparr>text = ''a'', style = []\<rparr>, True)"
    by code_simp
  have ne: "Len (uniformProvider 10 ''a'' 0) (provider (exampleListing 4 0)) \<noteq> 0"
    by (simp add: uniformProvider_def)
  have ls: "snd (List (uniformProvider 10 ''a'' 0) plainRenderer 80 5 (exampleListing 4 0))
              = (exampleListing 4 0)\<lparr>pagesize := 5\<rparr>"
    by (simp add: List_state [OF ne] w)
  have e: "selected (pageUp (uniformProvider 10 ''a'' 0)
        (snd (List (uniformProvider 10 ''a'' 0) plainRenderer 80 5 (exampleListing 4 0)))) = 0"
    "selected (pageDown (uniformProvider 10 ''a'' 0)
        (snd (List (uniformProvider 10 ''a'' 0) plainRenderer 80 5 (exampleListing 4 0)))) = 9"
    unfolding ls by (simp_all add: pageUp_def pageDown_def uniformProvider_def exampleListing_def)
  have sd: "seedOf (exampleListing 4 0) = 4" "selected (exampleListing 4 3) = 4"
    by (simp_all add: seedOf_def exampleListing_def)
  note t5 = List_pagesize [OF h, of plainRenderer 80 5, unfolded Let_def]
  note t0 = List_pagesize [OF h', of plainRenderer 80 0, unfolded Let_def]
  have m: "(1::int) \<le> 5" "(0::int) \<le> 0" by simp_all
  from t5 m(1) have a1:
    "pagesize (snd (List (uniformProvider 10 ''a'' 0) plainRenderer 80 5 (exampleListing 4 0)))
       = fst (snd (window (uniformProvider 10 ''a'' 0) 80 5 (exampleListing 4 0)))
         - fst (window (uniformProvider 10 ''a'' 0) 80 5 (exampleListing 4 0))"
    "holds (seedOf (exampleListing 4 0)) (window (uniformProvider 10 ''a'' 0) 80 5 (exampleListing 4 0))"
    by blast+
  from t0 m(2) have a2:
    "pagesize (snd (List (uniformProvider 10 ''a'' 0) plainRenderer 80 0 (exampleListing 4 3))) = 0"
    "selected (pageUp (uniformProvider 10 ''a'' 0)
        (snd (List (uniformProvider 10 ''a'' 0) plainRenderer 80 0 (exampleListing 4 3))))
       = max 0 (selected (exampleListing 4 3))"
    by blast+
  show ?thesis using a1 a2 e by (simp add: w sd)
qed

text \<open>
  Claim C10 as stated has \<^verbatim>\<open>pageUp\<close> leave the selection unchanged after a render with
  \<open>maxHeight \<le> 0\<close>. A provider with one entry whose \<^verbatim>\<open>Filter\<close> returns \<open>- 1\<close> gives a new
  listing with the selection \<open>- 1\<close>; after \<^verbatim>\<open>List\<close> with \<open>maxHeight = 0\<close> the page size is 0
  and \<^verbatim>\<open>pageUp\<close> sets the selection to 0.
\<close>

theorem pageUp_selects_first_after_empty_window:
  "Len (uniformProvider 1 ''a'' (- 1)) (provider (newListing 0 (uniformProvider 1 ''a'' (- 1)) [])) = 1
   \<and> selected (newListing 0 (uniformProvider 1 ''a'' (- 1)) []) = - 1
   \<and> pagesize (snd (List (uniformProvider 1 ''a'' (- 1)) plainRenderer 80 0
        (newListing 0 (uniformProvider 1 ''a'' (- 1)) []))) = 0
   \<and> selected (pageUp (uniformProvider 1 ''a'' (- 1))
        (snd (List (uniformProvider 1 ''a'' (- 1)) plainRenderer 80 0
           (newListing 0 (uniformProvider 1 ''a'' (- 1)) [])))) = 0"
  by code_simp

section \<open>The filter: UTF-8 and backspace\<close>

declare scanBack.simps [simp del]
declare DecodeRuneInString.simps [simp del]

lemma byte_char_of: "0 \<le> x \<Longrightarrow> x < 256 \<Longrightarrow> byte (char_of (x::int)) = x"
  by (simp add: byte_def)

lemma scanBack_finds:
  assumes "limit \<le> k" "k \<le> start" "RuneStart (s ! nat k)"
    and "\<forall>j. k < j \<and> j \<le> start \<longrightarrow> \<not> RuneStart (s ! nat j)"
  shows "scanBack s limit start = k"
  using assms
proof (induction s limit start rule: scanBack.induct)
  case (1 s limit start)
  show ?case
  proof (cases "start = k")
    case True
    with "1.prems" show ?thesis by (subst scanBack.simps) simp
  next
    case False
    with "1.prems" have lt: "k < start" by simp
    with "1.prems" have ns: "\<not> RuneStart (s ! nat start)" by simp
    have "scanBack s limit (start - 1) = k"
      using "1.IH" [OF _ ns] "1.prems" lt by simp
    with ns lt "1.prems" show ?thesis by (subst scanBack.simps) simp
  qed
qed

lemma DecodeLastRuneInString_append:
  assumes "RuneStart c0" "cs \<noteq> []" "length cs \<le> 3" "\<forall>c \<in> set cs. \<not> RuneStart c"
    and "snd (DecodeRuneInString (c0 # cs)) = length (c0 # cs)"
  shows "snd (DecodeLastRuneInString (t @ c0 # cs)) = length (c0 # cs)"
proof -
  let ?s = "t @ c0 # cs"
  let ?e = "int (length ?s)"
  have e: "?e = int (length t) + 1 + int (length cs)" by simp
  have lastc: "?s ! nat (?e - 1) = last cs"
    using assms(2) by (simp add: nat_add_distrib nth_append last_conv_nth)
  have "\<not> RuneStart (last cs)" using assms(2,4) by simp
  then have nself: "\<not> byte (?s ! nat (?e - 1)) < RuneSelf"
    by (subst lastc) (simp add: RuneStart_def RuneSelf_def)
  define limit where "limit = (if ?e - int UTFMax < 0 then 0 else ?e - int UTFMax)"
  have lim: "limit \<le> int (length t)" using assms(3) by (simp add: limit_def UTFMax_def)
  have k: "int (length t) \<le> ?e - 2" using assms(2) by (cases cs) auto
  have st: "RuneStart (?s ! nat (int (length t)))" using assms(1) by simp
  have ns: "\<forall>j. int (length t) < j \<and> j \<le> ?e - 2 \<longrightarrow> \<not> RuneStart (?s ! nat j)"
  proof (intro allI impI)
    fix j assume j: "int (length t) < j \<and> j \<le> ?e - 2"
    then have "nat j = length t + Suc (nat (j - int (length t) - 1))" by linarith
    then have "?s ! nat j = cs ! nat (j - int (length t) - 1)"
      by (simp add: nth_append)
    moreover have "nat (j - int (length t) - 1) < length cs" using j by auto
    ultimately show "\<not> RuneStart (?s ! nat j)" using assms(4) by simp
  qed
  have sb: "scanBack ?s limit (?e - 2) = int (length t)"
    by (rule scanBack_finds [OF lim k st ns])
  have dr: "drop (nat (int (length t))) ?s = c0 # cs" by simp
  obtain r size where d: "DecodeRuneInString (c0 # cs) = (r, size)" by (cases "DecodeRuneInString (c0 # cs)")
  with assms(5) have sz: "size = Suc (length cs)" by simp
  have ne: "?e \<noteq> 0" by simp
  have "DecodeLastRuneInString ?s = (r, size)"
    unfolding DecodeLastRuneInString_def Let_def limit_def [symmetric] sb
    using nself ne by (simp add: dr d sz)
  then show ?thesis by (simp add: sz)
qed


lemma runeToString_ascii:
  assumes "0 \<le> r" "r \<le> 0x7F"
  shows "snd (DecodeLastRuneInString (t @ runeToString r)) = length (runeToString r)"
  using assms by (simp add: runeToString_def DecodeLastRuneInString_def Let_def byte_def RuneSelf_def)

lemma split64:
  fixes r :: int
  obtains q m where "r = 64 * q + m" "0 \<le> m" "m < 64" "r div 64 = q" "r mod 64 = m"
proof
  show "r = 64 * (r div 64) + r mod 64" by simp
  show "0 \<le> r mod 64" "r mod 64 < 64" by simp_all
qed simp_all

lemma enc2_bytes:
  fixes r :: int
  assumes "0x80 \<le> r" "r \<le> 0x7FF"
  shows "2 \<le> r div 64" "r div 64 \<le> 31" "0 \<le> r mod 64" "r mod 64 < 64"
proof -
  obtain q m where a: "r = 64 * q + m" "0 \<le> m" "m < 64" and e: "r div 64 = q" "r mod 64 = m"
    by (rule split64)
  show "2 \<le> r div 64" unfolding e using assms a by linarith
  show "r div 64 \<le> 31" unfolding e using assms a by linarith
  show "0 \<le> r mod 64" "r mod 64 < 64" by simp_all
qed

lemma enc3_bytes:
  fixes r :: int
  assumes "0x800 \<le> r" "r \<le> 0xFFFF"
  shows "0 \<le> r div 4096" "r div 4096 \<le> 15"
    "0 \<le> (r div 64) mod 64" "(r div 64) mod 64 < 64"
    "0 \<le> r mod 64" "r mod 64 < 64"
    "r div 4096 = 0 \<Longrightarrow> 32 \<le> (r div 64) mod 64"
    "r div 4096 = 13 \<Longrightarrow> \<not> (0xD800 \<le> r \<and> r \<le> 0xDFFF) \<Longrightarrow> (r div 64) mod 64 < 32"
proof -
  obtain q m where a: "r = 64 * q + m" "0 \<le> m" "m < 64" and a': "r div 64 = q" "r mod 64 = m"
    by (rule split64)
  obtain q' m' where b: "q = 64 * q' + m'" "0 \<le> m'" "m' < 64" and b': "q div 64 = q'" "q mod 64 = m'"
    by (rule split64)
  have "r div 4096 = r div 64 div 64" using zdiv_zmult2_eq [of 64 r 64] by simp
  then have c: "r div 4096 = q'" by (simp only: a' b')
  have e: "(r div 64) mod 64 = m'" by (simp only: a' b')
  show "0 \<le> r div 4096" unfolding c using assms a b by linarith
  show "r div 4096 \<le> 15" unfolding c using assms a b by linarith
  show "0 \<le> (r div 64) mod 64" "(r div 64) mod 64 < 64" "0 \<le> r mod 64" "r mod 64 < 64"
    by simp_all
  show "r div 4096 = 0 \<Longrightarrow> 32 \<le> (r div 64) mod 64"
    unfolding c e using assms a b by linarith
  show "r div 4096 = 13 \<Longrightarrow> \<not> (0xD800 \<le> r \<and> r \<le> 0xDFFF) \<Longrightarrow> (r div 64) mod 64 < 32"
    unfolding c e using assms a b by linarith
qed

lemma enc4_bytes:
  fixes r :: int
  assumes "0x10000 \<le> r" "r \<le> 0x10FFFF"
  shows "0 \<le> r div 262144" "r div 262144 \<le> 4"
    "0 \<le> (r div 4096) mod 64" "(r div 4096) mod 64 < 64"
    "0 \<le> (r div 64) mod 64" "(r div 64) mod 64 < 64"
    "0 \<le> r mod 64" "r mod 64 < 64"
    "r div 262144 = 0 \<Longrightarrow> 16 \<le> (r div 4096) mod 64"
    "r div 262144 = 4 \<Longrightarrow> (r div 4096) mod 64 < 16"
proof -
  obtain q m where a: "r = 64 * q + m" "0 \<le> m" "m < 64" and a': "r div 64 = q" "r mod 64 = m"
    by (rule split64)
  obtain q' m' where b: "q = 64 * q' + m'" "0 \<le> m'" "m' < 64" and b': "q div 64 = q'" "q mod 64 = m'"
    by (rule split64)
  obtain q'' m'' where c: "q' = 64 * q'' + m''" "0 \<le> m''" "m'' < 64"
    and c': "q' div 64 = q''" "q' mod 64 = m''"
    by (rule split64)
  have "r div 4096 = r div 64 div 64" using zdiv_zmult2_eq [of 64 r 64] by simp
  then have d: "r div 4096 = q'" by (simp only: a' b')
  have "r div 262144 = r div 4096 div 64" using zdiv_zmult2_eq [of 64 r 4096] by simp
  then have e: "r div 262144 = q''" by (simp only: d c')
  have f: "(r div 4096) mod 64 = m''" by (simp only: d c')
  show "0 \<le> r div 262144" unfolding e using assms a b c by linarith
  show "r div 262144 \<le> 4" unfolding e using assms a b c by linarith
  show "0 \<le> (r div 4096) mod 64" "(r div 4096) mod 64 < 64"
    "0 \<le> (r div 64) mod 64" "(r div 64) mod 64 < 64" "0 \<le> r mod 64" "r mod 64 < 64"
    by simp_all
  show "r div 262144 = 0 \<Longrightarrow> 16 \<le> (r div 4096) mod 64"
    unfolding e f using assms a b c by linarith
  show "r div 262144 = 4 \<Longrightarrow> (r div 4096) mod 64 < 16"
    unfolding e f using assms a b c by linarith
qed

lemma Decode2:
  assumes "byte c0 = 0xC0 + d" "2 \<le> d" "d \<le> 31"
    and "byte c1 = 0x80 + m1" "0 \<le> m1" "m1 < 64"
  shows "snd (DecodeRuneInString [c0, c1]) = 2"
  using assms by (simp add: DecodeRuneInString.simps Let_def RuneSelf_def)

lemma Decode3:
  assumes "byte c0 = 0xE0 + d" "0 \<le> d" "d \<le> 15"
    and "byte c1 = 0x80 + m1" "0 \<le> m1" "m1 < 64"
    and "byte c2 = 0x80 + m2" "0 \<le> m2" "m2 < 64"
    and "d = 0 \<Longrightarrow> 32 \<le> m1" "d = 13 \<Longrightarrow> m1 < 32"
  shows "snd (DecodeRuneInString [c0, c1, c2]) = 3"
  using assms by (auto simp: DecodeRuneInString.simps Let_def RuneSelf_def)

lemma Decode4:
  assumes "byte c0 = 0xF0 + d" "0 \<le> d" "d \<le> 4"
    and "byte c1 = 0x80 + m1" "0 \<le> m1" "m1 < 64"
    and "byte c2 = 0x80 + m2" "0 \<le> m2" "m2 < 64"
    and "byte c3 = 0x80 + m3" "0 \<le> m3" "m3 < 64"
    and "d = 0 \<Longrightarrow> 16 \<le> m1" "d = 4 \<Longrightarrow> m1 < 16"
  shows "snd (DecodeRuneInString [c0, c1, c2, c3]) = 4"
  using assms by (auto simp: DecodeRuneInString.simps Let_def RuneSelf_def)

lemma cont_byte: "byte c = 0x80 + m \<Longrightarrow> 0 \<le> m \<Longrightarrow> m < 64 \<Longrightarrow> \<not> RuneStart c"
  by (simp add: RuneStart_def)

lemma lead_byte: "byte c = b \<Longrightarrow> 0xC0 \<le> b \<Longrightarrow> RuneStart c"
  by (simp add: RuneStart_def)

lemma DecodeLastRuneInString_runeToString:
  "snd (DecodeLastRuneInString (t @ runeToString r)) = length (runeToString r)"
proof -
  consider (one) "0 \<le> r \<and> r \<le> 0x7F"
    | (two) "0x80 \<le> r \<and> r \<le> 0x7FF"
    | (bad) "r < 0 \<or> 0x10FFFF < r \<or> (0xD800 \<le> r \<and> r \<le> 0xDFFF)"
    | (three) "0x800 \<le> r \<and> r \<le> 0xFFFF \<and> \<not> (0xD800 \<le> r \<and> r \<le> 0xDFFF)"
    | (four) "0x10000 \<le> r \<and> r \<le> 0x10FFFF"
    by linarith
  then show ?thesis
  proof cases
    case one
    then show ?thesis by (simp add: runeToString_ascii)
  next
    case two
    define c0 where "c0 = char_of (0xC0 + r div 64)"
    define c1 where "c1 = char_of (0x80 + r mod 64)"
    note b = enc2_bytes [of r]
    have e: "runeToString r = [c0, c1]" using two by (simp add: runeToString_def c0_def c1_def)
    have b0: "byte c0 = 0xC0 + r div 64" unfolding c0_def using two b by (intro byte_char_of) simp_all
    have b1: "byte c1 = 0x80 + r mod 64" unfolding c1_def using two b by (intro byte_char_of) simp_all
    have "snd (DecodeLastRuneInString (t @ c0 # [c1])) = length (c0 # [c1])"
    proof (rule DecodeLastRuneInString_append)
      show "RuneStart c0" using b0 two b by (intro lead_byte [of c0 "0xC0 + r div 64"]) simp_all
      show "\<forall>c \<in> set [c1]. \<not> RuneStart c" using cont_byte [OF b1] two b by simp
      show "snd (DecodeRuneInString [c0, c1]) = length [c0, c1]"
        using Decode2 [OF b0 _ _ b1] two b by simp
    qed simp_all
    then show ?thesis by (simp add: e)
  next
    case bad
    define c0 where "c0 = char_of (0xEF :: int)"
    define c1 where "c1 = char_of (0xBF :: int)"
    define c2 where "c2 = char_of (0xBD :: int)"
    have e: "runeToString r = [c0, c1, c2]"
      using bad by (auto simp: runeToString_def c0_def c1_def c2_def)
    have b0: "byte c0 = 0xE0 + 15" by (simp add: c0_def byte_def)
    have b1: "byte c1 = 0x80 + 63" by (simp add: c1_def byte_def)
    have b2: "byte c2 = 0x80 + 61" by (simp add: c2_def byte_def)
    have "snd (DecodeLastRuneInString (t @ c0 # [c1, c2])) = length (c0 # [c1, c2])"
    proof (rule DecodeLastRuneInString_append)
      show "RuneStart c0" using b0 by (intro lead_byte [of c0 "0xE0 + 15"]) simp_all
      show "\<forall>c \<in> set [c1, c2]. \<not> RuneStart c"
        using cont_byte [OF b1] cont_byte [OF b2] by simp
      show "snd (DecodeRuneInString [c0, c1, c2]) = length [c0, c1, c2]"
        using Decode3 [OF b0 _ _ b1 _ _ b2] by simp
    qed simp_all
    then show ?thesis by (simp add: e)
  next
    case three
    define c0 where "c0 = char_of (0xE0 + r div 4096)"
    define c1 where "c1 = char_of (0x80 + (r div 64) mod 64)"
    define c2 where "c2 = char_of (0x80 + r mod 64)"
    have r: "0x800 \<le> r" "r \<le> 0xFFFF" using three by simp_all
    note b = enc3_bytes [OF r]
    have e: "runeToString r = [c0, c1, c2]"
      using three by (auto simp: runeToString_def c0_def c1_def c2_def)
    have b0: "byte c0 = 0xE0 + r div 4096" unfolding c0_def using b(1,2) by (intro byte_char_of) simp_all
    have b1: "byte c1 = 0x80 + (r div 64) mod 64" unfolding c1_def by (intro byte_char_of) simp_all
    have b2: "byte c2 = 0x80 + r mod 64" unfolding c2_def by (intro byte_char_of) simp_all
    have "snd (DecodeLastRuneInString (t @ c0 # [c1, c2])) = length (c0 # [c1, c2])"
    proof (rule DecodeLastRuneInString_append)
      show "RuneStart c0" using b0 b(1) by (intro lead_byte [of c0 "0xE0 + r div 4096"]) simp_all
      show "\<forall>c \<in> set [c1, c2]. \<not> RuneStart c"
        using cont_byte [OF b1] cont_byte [OF b2] by simp
      show "snd (DecodeRuneInString [c0, c1, c2]) = length [c0, c1, c2]"
        using Decode3 [OF b0 b(1) b(2) b1 b(3) b(4) b2 b(5) b(6)] b(7) b(8) three by simp
    qed simp_all
    then show ?thesis by (simp add: e)
  next
    case four
    define c0 where "c0 = char_of (0xF0 + r div 262144)"
    define c1 where "c1 = char_of (0x80 + (r div 4096) mod 64)"
    define c2 where "c2 = char_of (0x80 + (r div 64) mod 64)"
    define c3 where "c3 = char_of (0x80 + r mod 64)"
    have r: "0x10000 \<le> r" "r \<le> 0x10FFFF" using four by simp_all
    note b = enc4_bytes [OF r]
    have e: "runeToString r = [c0, c1, c2, c3]"
      using four by (auto simp: runeToString_def c0_def c1_def c2_def c3_def)
    have b0: "byte c0 = 0xF0 + r div 262144" unfolding c0_def using b(1,2) by (intro byte_char_of) simp_all
    have b1: "byte c1 = 0x80 + (r div 4096) mod 64" unfolding c1_def by (intro byte_char_of) simp_all
    have b2: "byte c2 = 0x80 + (r div 64) mod 64" unfolding c2_def by (intro byte_char_of) simp_all
    have b3: "byte c3 = 0x80 + r mod 64" unfolding c3_def by (intro byte_char_of) simp_all
    have "snd (DecodeLastRuneInString (t @ c0 # [c1, c2, c3])) = length (c0 # [c1, c2, c3])"
    proof (rule DecodeLastRuneInString_append)
      show "RuneStart c0" using b0 b(1) by (intro lead_byte [of c0 "0xF0 + r div 262144"]) simp_all
      show "\<forall>c \<in> set [c1, c2, c3]. \<not> RuneStart c"
        using cont_byte [OF b1] cont_byte [OF b2] cont_byte [OF b3] by simp
      show "snd (DecodeRuneInString [c0, c1, c2, c3]) = length [c0, c1, c2, c3]"
        using Decode4 [OF b0 b(1) b(2) b1 b(3) b(4) b2 b(5) b(6) b3 b(7) b(8)] b(9) b(10) by simp
    qed simp_all
    then show ?thesis by (simp add: e)
  qed
qed

lemma runeToString_not_Nil: "runeToString r \<noteq> []"
  by (simp add: runeToString_def)

lemma scanBack_le: "scanBack s limit start \<le> start"
proof (induction s limit start rule: scanBack.induct)
  case (1 s limit start)
  show ?case
  proof (cases "limit \<le> start \<and> \<not> RuneStart (s ! nat start)")
    case True
    with 1 have "scanBack s limit (start - 1) \<le> start - 1" by simp
    with True show ?thesis by (subst scanBack.simps) simp
  next
    case False
    then show ?thesis by (subst scanBack.simps) auto
  qed
qed

lemma DecodeLastRuneInString_size:
  assumes "s \<noteq> []"
  shows "1 \<le> snd (DecodeLastRuneInString s) \<and> snd (DecodeLastRuneInString s) \<le> length s"
proof -
  let ?e = "int (length s)"
  define limit where "limit = (if ?e - int UTFMax < 0 then 0 else ?e - int UTFMax)"
  define start where "start = (if scanBack s limit (?e - 2) < 0 then 0 else scanBack s limit (?e - 2))"
  obtain r size where d: "DecodeRuneInString (drop (nat start) s) = (r, size)"
    by (cases "DecodeRuneInString (drop (nat start) s)")
  have ne: "?e \<noteq> 0" "1 \<le> length s" using assms by (simp_all add: Suc_le_eq)
  have s0: "0 \<le> start" by (simp add: start_def)
  have s1: "start \<le> ?e - 1"
    using scanBack_le [of s limit "?e - 2"] ne by (simp add: start_def)
  have eq: "DecodeLastRuneInString s =
      (if byte (s ! nat (?e - 1)) < RuneSelf then (byte (s ! nat (?e - 1)), 1)
       else if start + int size \<noteq> ?e then (RuneError, 1) else (r, size))"
    unfolding DecodeLastRuneInString_def Let_def limit_def [symmetric] start_def [symmetric]
    using ne(1) by (simp add: d)
  show ?thesis
    unfolding eq using ne(2) s0 s1 by auto
qed

text \<open>
  Claim C7 (backspace): on an empty filter \<^verbatim>\<open>backspace\<close> returns false and leaves the
  listing as it is. On a filter that is not empty it returns true and cuts the filter to a
  strictly shorter prefix. On a filter that ends with the UTF-8 encoding of a character
  (\<open>t\<close> followed by \<^verbatim>\<open>string(r)\<close>, of one to four bytes) it removes exactly that
  encoding, calls the provider's \<^verbatim>\<open>Filter\<close> with \<open>t\<close>, takes the returned index as the
  selection, and returns true.
\<close>

theorem backspace_removes_last_character:
  "(filter_text l = [] \<longrightarrow> backspace P l = (l, False))
   \<and> (filter_text l \<noteq> [] \<longrightarrow>
        snd (backspace P l)
        \<and> length (filter_text (fst (backspace P l))) < length (filter_text l)
        \<and> filter_text (fst (backspace P l))
            = take (length (filter_text (fst (backspace P l)))) (filter_text l))
   \<and> (filter_text l = t @ runeToString r \<longrightarrow>
        backspace P l =
          (l\<lparr>filter_text := t, selected := fst (Filter P (provider l) t),
             provider := snd (Filter P (provider l) t)\<rparr>, True))"
proof -
  have a: "filter_text l = [] \<longrightarrow> backspace P l = (l, False)"
    by (simp add: backspace_def DecodeLastRuneInString_def)
  have b: "filter_text l \<noteq> [] \<longrightarrow>
        snd (backspace P l)
        \<and> length (filter_text (fst (backspace P l))) < length (filter_text l)
        \<and> filter_text (fst (backspace P l))
            = take (length (filter_text (fst (backspace P l)))) (filter_text l)"
  proof
    assume ne: "filter_text l \<noteq> []"
    obtain r' size where d: "DecodeLastRuneInString (filter_text l) = (r', size)"
      by (cases "DecodeLastRuneInString (filter_text l)")
    from DecodeLastRuneInString_size [OF ne] have sz: "1 \<le> size" "size \<le> length (filter_text l)"
      by (simp_all add: d)
    have "backspace P l
            = (changeFilter P (take (length (filter_text l) - size) (filter_text l)) l, True)"
      using sz by (simp add: backspace_def d)
    then show "snd (backspace P l)
        \<and> length (filter_text (fst (backspace P l))) < length (filter_text l)
        \<and> filter_text (fst (backspace P l))
            = take (length (filter_text (fst (backspace P l)))) (filter_text l)"
      using sz by (simp add: changeFilter_def split: prod.split)
  qed
  have c: "filter_text l = t @ runeToString r \<longrightarrow>
        backspace P l =
          (l\<lparr>filter_text := t, selected := fst (Filter P (provider l) t),
             provider := snd (Filter P (provider l) t)\<rparr>, True)"
  proof
    assume f: "filter_text l = t @ runeToString r"
    obtain r' size where d: "DecodeLastRuneInString (filter_text l) = (r', size)"
      by (cases "DecodeLastRuneInString (filter_text l)")
    from DecodeLastRuneInString_runeToString [of t r]
    have sz: "size = length (runeToString r)" by (simp add: f [symmetric] d)
    have "0 < size" using runeToString_not_Nil [of r] by (simp add: sz)
    then have bs: "backspace P l
            = (changeFilter P (take (length (filter_text l) - size) (filter_text l)) l, True)"
      by (simp add: backspace_def d)
    have tk: "take (length (filter_text l) - size) (filter_text l) = t"
      by (simp add: f sz)
    show "backspace P l =
          (l\<lparr>filter_text := t, selected := fst (Filter P (provider l) t),
             provider := snd (Filter P (provider l) t)\<rparr>, True)"
      by (simp add: bs tk changeFilter_def split: prod.split)
  qed
  from a b c show ?thesis by blast
qed

theorem backspace_removes_last_character_witness:
  "backspace (uniformProvider 3 ''a'' 0) (exampleListing 2 0) = (exampleListing 2 0, False)
   \<and> snd (backspace (uniformProvider 3 ''a'' 0)
            ((exampleListing 2 0)\<lparr>filter_text := ''ab'' @ runeToString 0x20AC\<rparr>))
   \<and> filter_text (fst (backspace (uniformProvider 3 ''a'' 0)
            ((exampleListing 2 0)\<lparr>filter_text := ''ab'' @ runeToString 0x20AC\<rparr>))) = ''ab''
   \<and> selected (fst (backspace (uniformProvider 3 ''a'' 0)
            ((exampleListing 2 0)\<lparr>filter_text := ''ab'' @ runeToString 0x20AC\<rparr>))) = 0"
proof -
  have e: "filter_text (exampleListing 2 0) = []" by (simp add: exampleListing_def)
  have f: "filter_text ((exampleListing 2 0)\<lparr>filter_text := ''ab'' @ runeToString 0x20AC\<rparr>)
             = ''ab'' @ runeToString 0x20AC"
    by simp
  show ?thesis
    using backspace_removes_last_character [of "exampleListing 2 0" "uniformProvider 3 ''a'' 0"] e
      backspace_removes_last_character
        [of "(exampleListing 2 0)\<lparr>filter_text := ''ab'' @ runeToString 0x20AC\<rparr>"
            "uniformProvider 3 ''a'' 0" "''ab''" "0x20AC"] f
    by (simp add: uniformProvider_def)
qed


text \<open>
  Claim C8 (append, then backspace): for a key that \<^verbatim>\<open>likeChar\<close> accepts and a provider
  whose \<^verbatim>\<open>Filter\<close> returns an index that depends on its argument only, handling the key
  and then \<^verbatim>\<open>backspace\<close> both report success, the filter is the one before the key, and
  the selection is the index \<^verbatim>\<open>Filter\<close> returns for that filter, which is the selection
  \<^verbatim>\<open>changeFilter\<close> with that filter sets.
\<close>

theorem append_then_backspace:
  assumes "likeChar k"
    and "\<forall>p p' s. fst (Filter P p s) = fst (Filter P p' s)"
  shows "snd (handleFilterKey P likeChar k l)
       \<and> snd (backspace P (fst (handleFilterKey P likeChar k l)))
       \<and> filter_text (fst (backspace P (fst (handleFilterKey P likeChar k l)))) = filter_text l
       \<and> selected (fst (backspace P (fst (handleFilterKey P likeChar k l))))
           = fst (Filter P (provider l) (filter_text l))
       \<and> selected (fst (backspace P (fst (handleFilterKey P likeChar k l))))
           = selected (changeFilter P (filter_text l) l)"
proof -
  define l1 where "l1 = fst (handleFilterKey P likeChar k l)"
  have h: "handleFilterKey P likeChar k l
             = (changeFilter P (filter_text l @ runeToString (Rune k)) l, True)"
    using assms(1) by (simp add: handleFilterKey_def)
  have f1: "filter_text l1 = filter_text l @ runeToString (Rune k)"
    by (simp add: l1_def h changeFilter_def split: prod.split)
  obtain r' size where d: "DecodeLastRuneInString (filter_text l1) = (r', size)"
    by (cases "DecodeLastRuneInString (filter_text l1)")
  from DecodeLastRuneInString_runeToString [of "filter_text l" "Rune k"]
  have sz: "size = length (runeToString (Rune k))" by (simp add: f1 [symmetric] d)
  have pos: "0 < size" using runeToString_not_Nil [of "Rune k"] by (simp add: sz)
  have b: "backspace P l1 = (changeFilter P (filter_text l) l1, True)"
    using pos by (simp add: backspace_def d) (simp add: f1 sz)
  have s: "selected (changeFilter P (filter_text l) l1) = fst (Filter P (provider l) (filter_text l))"
    using assms(2) by (simp add: changeFilter_def split: prod.split) (metis fst_conv)
  have s': "selected (changeFilter P (filter_text l) l) = fst (Filter P (provider l) (filter_text l))"
    by (simp add: changeFilter_def split: prod.split)
  have t: "filter_text (changeFilter P (filter_text l) l1) = filter_text l"
    by (simp add: changeFilter_def split: prod.split)
  show ?thesis
    unfolding l1_def [symmetric] using h b s s' t by simp
qed

theorem append_then_backspace_witness:
  "filter_text (fst (backspace (uniformProvider 3 ''a'' 1)
       (fst (handleFilterKey (uniformProvider 3 ''a'' 1) (\<lambda>k. Mod k = 0 \<and> 0 < Rune k)
               \<lparr>Rune = 0xE9, Mod = 0\<rparr> ((exampleListing 2 0)\<lparr>filter_text := ''ab''\<rparr>))))) = ''ab''
   \<and> selected (fst (backspace (uniformProvider 3 ''a'' 1)
       (fst (handleFilterKey (uniformProvider 3 ''a'' 1) (\<lambda>k. Mod k = 0 \<and> 0 < Rune k)
               \<lparr>Rune = 0xE9, Mod = 0\<rparr> ((exampleListing 2 0)\<lparr>filter_text := ''ab''\<rparr>))))) = 1"
proof -
  have a: "(\<lambda>k. Mod k = 0 \<and> 0 < Rune k) \<lparr>Rune = 0xE9, Mod = 0\<rparr>" by simp
  have d: "\<forall>p p' s. fst (Filter (uniformProvider 3 ''a'' 1) p s)
                     = fst (Filter (uniformProvider 3 ''a'' 1) p' s)"
    by (simp add: uniformProvider_def)
  show ?thesis
    using append_then_backspace [of "\<lambda>k. Mod k = 0 \<and> 0 < Rune k" "\<lparr>Rune = 0xE9, Mod = 0\<rparr>"
        "uniformProvider 3 ''a'' 1" "(exampleListing 2 0)\<lparr>filter_text := ''ab''\<rparr>", OF a d]
    by (simp add: uniformProvider_def)
qed

end
